theory Spec2Isabelle
  imports Main "HOL-Library.Word" "HOL-Library.AList"
begin

section \<open>JavaScript strings\<close>

text \<open>
  A JavaScript string is a sequence of UTF-16 code units; \<open>length\<close>, \<open>substring\<close>,
  \<open>lastIndexOf\<close> and \<open>trim\<close> all count and compare code units.
\<close>

type_synonym jschar = "16 word"
type_synonym jsstring = "jschar list"

text \<open>An ASCII literal as a JavaScript string.\<close>

definition js :: "string \<Rightarrow> jsstring" where
  "js s = map (\<lambda>c. of_nat (of_char c)) s"

text \<open>
  \<open>String.prototype.substring(start, end)\<close>: both indices are clamped to
  \<open>[0, length]\<close> and swapped when the first exceeds the second.
\<close>

definition substring :: "jsstring \<Rightarrow> int \<Rightarrow> int \<Rightarrow> jsstring" where
  "substring s start end =
     (let len = int (length s);
          intStart = min (max start 0) len;
          intEnd = min (max end 0) len;
          from = min intStart intEnd;
          to = max intStart intEnd
      in take (nat (to - from)) (drop (nat from) s))"

text \<open>
  \<open>String.prototype.lastIndexOf(c)\<close> for a one-character search string: the search runs
  backward from the end and yields \<open>-1\<close> when the character does not occur.
  \<open>lastIndexFrom s c k\<close> searches the positions below \<open>k\<close>.
\<close>

fun lastIndexFrom :: "jsstring \<Rightarrow> jschar \<Rightarrow> nat \<Rightarrow> int" where
  "lastIndexFrom s c 0 = -1"
| "lastIndexFrom s c (Suc k) = (if s ! k = c then int k else lastIndexFrom s c k)"

definition lastIndexOf :: "jsstring \<Rightarrow> jschar \<Rightarrow> int" where
  "lastIndexOf s c = lastIndexFrom s c (length s)"

text \<open>
  \<open>String.prototype.trim()\<close> removes ECMAScript WhiteSpace and LineTerminator code units
  from both ends.
\<close>

definition isWhiteSpace :: "jschar \<Rightarrow> bool" where
  "isWhiteSpace c \<longleftrightarrow>
     c \<in> {0x0009, 0x000A, 0x000B, 0x000C, 0x000D, 0x0020, 0x00A0, 0x1680,
          0x2000, 0x2001, 0x2002, 0x2003, 0x2004, 0x2005, 0x2006, 0x2007,
          0x2008, 0x2009, 0x200A, 0x2028, 0x2029, 0x202F, 0x205F, 0x3000, 0xFEFF}"

definition trim :: "jsstring \<Rightarrow> jsstring" where
  "trim s = rev (dropWhile isWhiteSpace (rev (dropWhile isWhiteSpace s)))"

section \<open>The text chunker (\<open>splitIntoChunks\<close>, \<open>estimateTokens\<close>)\<close>

record ChunkOptions =
  maxChunkSize :: "int option"
  overlap :: "int option"

definition DEFAULT_CHUNK_SIZE :: int where
  "DEFAULT_CHUNK_SIZE = 4000"

definition DEFAULT_OVERLAP :: int where
  "DEFAULT_OVERLAP = 200"

text \<open>
  The code points of \<open>'.'\<close>, \<open>'\n'\<close> and \<open>' '\<close>, the three break characters.
\<close>

definition chPeriod :: jschar where "chPeriod = 0x2E"
definition chNewline :: jschar where "chNewline = 0x0A"
definition chSpace :: jschar where "chSpace = 0x20"

text \<open>
  The break point of a window: the largest of the last positions of the three break
  characters (\<open>-1\<close> when none occurs).
\<close>

definition breakPoint :: "jsstring \<Rightarrow> int" where
  "breakPoint chunk =
     (let lastPeriod = lastIndexOf chunk chPeriod;
          lastNewline = lastIndexOf chunk chNewline;
          lastSpace = lastIndexOf chunk chSpace
      in max lastPeriod (max lastNewline lastSpace))"

text \<open>
  One iteration of the \<open>while\<close> loop of \<open>splitIntoChunks\<close>, from \<open>startIndex\<close>: the chunk
  (before \<open>trim\<close>) and the next \<open>startIndex\<close>. The sizes are JavaScript numbers; they are
  integers at every call site, and \<open>breakPoint > maxSize * 0.5\<close> is then
  \<open>2 * breakPoint > maxSize\<close>.
\<close>

definition splitStep :: "jsstring \<Rightarrow> int \<Rightarrow> int \<Rightarrow> int \<Rightarrow> jsstring \<times> int" where
  "splitStep text maxSize ovl startIndex =
     (let endIndex = min (startIndex + maxSize) (int (length text));
          chunk = substring text startIndex endIndex
      in if endIndex < int (length text) then
           (let bp = breakPoint chunk
            in if 2 * bp > maxSize then
                 (substring text startIndex (startIndex + bp + 1),
                  startIndex + bp + 1 - ovl)
               else (chunk, endIndex - ovl))
         else (chunk, endIndex))"

text \<open>
  The loop itself. It need not terminate (an overlap larger than the window moves
  \<open>startIndex\<close> backward), so it is a partial function: \<open>None\<close> is a loop that never
  returns.
\<close>

partial_function (option) splitLoop ::
  "jsstring \<Rightarrow> int \<Rightarrow> int \<Rightarrow> int \<Rightarrow> jsstring list \<Rightarrow> jsstring list option" where
  "splitLoop text maxSize ovl startIndex chunks =
     (if startIndex < int (length text) then
        splitLoop text maxSize ovl (snd (splitStep text maxSize ovl startIndex))
          (chunks @ [trim (fst (splitStep text maxSize ovl startIndex))])
      else Some chunks)"

declare splitLoop.simps [code]

text \<open>
  \<open>options?.maxChunkSize ?? DEFAULT_CHUNK_SIZE\<close> and \<open>options?.overlap ?? DEFAULT_OVERLAP\<close>.
\<close>

definition optMaxSize :: "ChunkOptions option \<Rightarrow> int" where
  "optMaxSize options =
     (case options of None \<Rightarrow> DEFAULT_CHUNK_SIZE
      | Some opt \<Rightarrow> (case maxChunkSize opt of None \<Rightarrow> DEFAULT_CHUNK_SIZE | Some m \<Rightarrow> m))"

definition optOverlap :: "ChunkOptions option \<Rightarrow> int" where
  "optOverlap options =
     (case options of None \<Rightarrow> DEFAULT_OVERLAP
      | Some opt \<Rightarrow> (case overlap opt of None \<Rightarrow> DEFAULT_OVERLAP | Some v \<Rightarrow> v))"

definition splitIntoChunks :: "jsstring \<Rightarrow> ChunkOptions option \<Rightarrow> jsstring list option" where
  "splitIntoChunks text options =
     (let maxSize = optMaxSize options;
          ovl = optOverlap options
      in if int (length text) \<le> maxSize then Some [text]
         else splitLoop text maxSize ovl 0 [])"

text \<open>\<open>estimateTokens\<close>: \<open>Math.ceil(text.length / 4)\<close>.\<close>

definition estimateTokens :: "jsstring \<Rightarrow> int" where
  "estimateTokens text = (int (length text) + 3) div 4"

section \<open>The host runtime\<close>

text \<open>
  The host runtime is a black box. A session object it creates is identified by a
  handle; a rejected promise carries an \<open>Error\<close> with a message or some other value.
\<close>

type_synonym handle = nat

datatype session_type = summarizer | languageModel

datatype availability = unavailable | downloadable | downloading | available

datatype thrown = Error jsstring | NonError

text \<open>The calls into the host runtime, which the model records with their time and caller.\<close>

datatype host_call =
    AvailabilityCall session_type
  | CreateCall session_type
  | DestroyCall handle
  | SummarizeCall handle jsstring

type_synonym tid = nat

type_synonym host_event = "int \<times> tid \<times> host_call"

text \<open>
  What wakes a suspended \<open>await\<close>: the microtask that follows the \<open>await\<close> of a promise
  already settled, a \<open>setTimeout\<close> timer, the settlement of a host promise, or the local
  timeout of a \<open>Promise.race\<close>.
\<close>

datatype response =
    Microtask
  | TimerFired
  | AvailabilityResolved availability
  | Created handle
  | Summarized jsstring
  | Rejected thrown
  | TimedOut

section \<open>The session manager (\<open>AISessionManager\<close>)\<close>

record SessionConfig =
  ctype :: session_type
  options :: "jsstring option"

text \<open>
  \<open>options\<close> holds \<open>JSON.stringify(config.options)\<close>; it is \<open>None\<close> when
  \<open>config.options\<close> is undefined or another falsy value, for which the code takes
  \<open>{}\<close> (\<open>config.options || {}\<close>). The field \<open>creationQueue\<close> of the class is initialised to a resolved promise
  and is neither read nor assigned anywhere in the source, so the state below has no
  component for it.
\<close>

record ManagedSession =
  session :: handle
  stype :: session_type
  createdAt :: int
  lastUsedAt :: int
  useCount :: nat

text \<open>
  \<open>sessions\<close> is a JavaScript \<open>Map\<close>: it iterates in insertion order, \<open>set\<close> on an
  existing key keeps its position (\<open>AList.update\<close>), \<open>delete\<close> removes the key
  (\<open>AList.delete\<close>).
\<close>

record AISessionManager =
  sessions :: "(jsstring \<times> ManagedSession) list"
  lastCreationTime :: int

definition MIN_CREATION_INTERVAL :: int where
  "MIN_CREATION_INTERVAL = 1000"

definition MAX_SESSIONS :: nat where
  "MAX_SESSIONS = 3"

definition SESSION_TIMEOUT :: int where
  "SESSION_TIMEOUT = 5 * 60 * 1000"

text \<open>The default \<open>retries = 2\<close> of the two \<open>create...WithRetry\<close> methods.\<close>

definition RETRIES :: nat where
  "RETRIES = 2"

definition typeName :: "session_type \<Rightarrow> jsstring" where
  "typeName ty = (case ty of summarizer \<Rightarrow> js ''summarizer'' | languageModel \<Rightarrow> js ''languageModel'')"

definition apiName :: "session_type \<Rightarrow> jsstring" where
  "apiName ty = (case ty of summarizer \<Rightarrow> js ''Summarizer'' | languageModel \<Rightarrow> js ''LanguageModel'')"

definition availabilityName :: "availability \<Rightarrow> jsstring" where
  "availabilityName a =
     (case a of unavailable \<Rightarrow> js ''unavailable'' | downloadable \<Rightarrow> js ''downloadable''
      | downloading \<Rightarrow> js ''downloading'' | available \<Rightarrow> js ''available'')"

text \<open>\<open>`${config.type}-${JSON.stringify(config.options || {})}`\<close>\<close>

definition sessionKey :: "SessionConfig \<Rightarrow> jsstring" where
  "sessionKey config =
     typeName (ctype config) @ js ''-'' @ (case options config of None \<Rightarrow> js ''{}'' | Some j \<Rightarrow> j)"

text \<open>
  The program counter of a suspended \<open>getSession\<close> call: the \<open>await\<close> of a \<open>cleanup\<close>
  that had nothing to destroy and has returned (the first \<open>await\<close> of the call, which
  ends the turn of the caller), the 200 ms delays of \<open>cleanup\<close> and \<open>destroyOldestSession\<close> (with
  the session object read before the delay, the key and, for \<open>cleanup\<close>, the keys still
  to do), the rate-limit delay, and, in attempt \<open>i\<close> of the retry loop, the
  availability probe, the create call and the 2000 ms backoff. Timers carry the time at
  which they are due.
\<close>

datatype gs_pc =
    CleanupReturned
  | CleanupWait int "handle option" jsstring "jsstring list"
  | DestroyOldestWait int "handle option" jsstring
  | RateLimitWait int
  | AvailabilityWait nat
  | CreateWait nat
  | RetryWait int nat

datatype gs_status = Suspended gs_pc | Returned handle | Threw thrown

section \<open>\<open>simplifyArticle\<close>: data\<close>

datatype SimplificationLevel = Low | Mid | High

datatype summary_length = short | medium | long

record SimplifyArgs =
  content :: jsstring
  level :: SimplificationLevel
  ctx :: "jsstring option"

text \<open>
  The program counter of a suspended \<open>simplifyArticle\<close> call: inside \<open>getSession\<close>;
  at the \<open>await\<close> of a \<open>getSession\<close> that has returned a pooled session at once;
  awaiting \<open>summarize\<close> of chunk \<open>i\<close> (with the session, the chunks and the summaries so
  far); in the 500 ms pause after chunk \<open>i\<close>; awaiting the final pass over the combined
  summary; awaiting the single call of the unchunked case.
\<close>

datatype sa_pc =
    Acquiring gs_pc
  | SessionReturned handle
  | ChunkWait handle "jsstring list" nat "jsstring list"
  | ChunkPause int handle "jsstring list" nat "jsstring list"
  | FinalWait handle
  | SingleWait handle

text \<open>
  The program counter of a suspended \<open>destroyAll\<close> (the 200 ms delay before a \<open>destroy\<close>,
  with the session object read before the delay and the keys still to do) or
  \<open>destroySession\<close> (its delay, with the session read before it and the key).
\<close>

datatype destroy_pc =
    DestroyAllWait int "handle option" "jsstring list"
  | DestroySessionWait int handle jsstring

datatype result_value = SessionValue handle | TextValue jsstring | UndefinedValue

datatype settled = Fulfilled result_value | RejectedWith thrown

text \<open>
  A call in progress. The \<open>bool option\<close> of a \<open>simplifyArticle\<close> call is its \<open>signal\<close>
  argument: \<open>None\<close> when no signal was passed, otherwise the current \<open>aborted\<close> flag.
  \<open>Diverged\<close> is a call whose \<open>splitIntoChunks\<close> never returns.
\<close>

datatype task =
    GetSessionTask SessionConfig gs_pc
  | SimplifyTask SimplifyArgs "bool option" sa_pc
  | DestroyTask destroy_pc
  | Done settled
  | Diverged

section \<open>The event loop\<close>

text \<open>
  JavaScript runs one task at a time and switches only at an \<open>await\<close>. The world holds
  the clock (\<open>Date.now()\<close>), the singleton session manager, whether the API globals
  exist (\<open>'Summarizer' in self\<close>), the host calls made so far and the calls in progress.
  Synchronous code takes no time. The step of a call ends at its first \<open>await\<close>, also
  when the promise awaited is already settled: the caller's turn goes on, and the call
  continues in a microtask. Once a call has been woken by a timer or by the host, a
  continuation that is only a microtask away runs in the same step.
\<close>

record world =
  now :: int
  manager :: AISessionManager
  apiPresent :: "session_type \<Rightarrow> bool"
  trace :: "host_event list"
  tasks :: "tid \<Rightarrow> task option"

definition initialWorld :: "int \<Rightarrow> world" where
  "initialWorld t0 =
     \<lparr>now = t0, manager = \<lparr>sessions = [], lastCreationTime = 0\<rparr>,
      apiPresent = (\<lambda>_. True), trace = [], tasks = (\<lambda>_. None)\<rparr>"

definition emit :: "tid \<Rightarrow> host_call \<Rightarrow> world \<Rightarrow> world" where
  "emit t c w = w\<lparr>trace := trace w @ [(now w, t, c)]\<rparr>"

definition setSessions :: "(jsstring \<times> ManagedSession) list \<Rightarrow> world \<Rightarrow> world" where
  "setSessions ss w = w\<lparr>manager := (manager w)\<lparr>sessions := ss\<rparr>\<rparr>"

definition setTask :: "tid \<Rightarrow> task \<Rightarrow> world \<Rightarrow> world" where
  "setTask t tk w = w\<lparr>tasks := (tasks w)(t \<mapsto> tk)\<rparr>"

section \<open>\<open>getSession\<close> and its helpers\<close>

text \<open>
  One failed attempt of \<open>createSummarizerWithRetry\<close> / \<open>createLanguageModelWithRetry\<close>
  (the two differ in names and default options only): the \<open>catch\<close> rethrows on the last
  attempt and otherwise waits 2000 ms. \<open>getSession\<close>'s own \<open>catch\<close> logs and rethrows.
\<close>

definition attemptFailed :: "nat \<Rightarrow> thrown \<Rightarrow> world \<Rightarrow> gs_status \<times> world" where
  "attemptFailed i e w =
     (if i = RETRIES then (Threw e, w) else (Suspended (RetryWait (now w + 2000) i), w))"

text \<open>The start of attempt \<open>i\<close>, up to the \<open>await\<close> of the availability probe.\<close>

definition createAttempt :: "tid \<Rightarrow> SessionConfig \<Rightarrow> nat \<Rightarrow> world \<Rightarrow> gs_status \<times> world" where
  "createAttempt t config i w =
     (if \<not> apiPresent w (ctype config) then
        attemptFailed i (Error (apiName (ctype config) @ js '' API not available'')) w
      else (Suspended (AvailabilityWait i), emit t (AvailabilityCall (ctype config)) w))"

text \<open>The rate limit of \<open>getSession\<close> (source lines 59 to 65), then the creation.\<close>

definition rateLimit :: "tid \<Rightarrow> SessionConfig \<Rightarrow> world \<Rightarrow> gs_status \<times> world" where
  "rateLimit t config w =
     (let timeSinceLastCreation = now w - lastCreationTime (manager w)
      in if timeSinceLastCreation < MIN_CREATION_INTERVAL then
           (let waitTime = MIN_CREATION_INTERVAL - timeSinceLastCreation
            in (Suspended (RateLimitWait (now w + waitTime)), w))
         else createAttempt t config 0 w)"

text \<open>
  The scan of \<open>destroyOldestSession\<close>: \<open>oldestKey\<close> starts as \<open>null\<close> and \<open>oldestTime\<close> as
  \<open>Infinity\<close> (\<open>None\<close>); a session replaces the candidate when its \<open>lastUsedAt\<close> is
  strictly smaller.
\<close>

fun oldestScan ::
  "(jsstring \<times> ManagedSession) list \<Rightarrow> jsstring option \<times> int option \<Rightarrow> jsstring option \<times> int option" where
  "oldestScan [] acc = acc"
| "oldestScan ((key, s) # rest) (oldestKey, oldestTime) =
     (if (case oldestTime of None \<Rightarrow> True | Some t \<Rightarrow> lastUsedAt s < t)
      then oldestScan rest (Some key, Some (lastUsedAt s))
      else oldestScan rest (oldestKey, oldestTime))"

text \<open>
  \<open>session.session.destroy()\<close> on the session object read before the delay; when the
  key was no longer in the map the read gave \<open>undefined\<close> and the call throws before
  reaching the host. Either way, and also when \<open>destroy\<close> itself throws, the key is
  deleted next (in the \<open>try\<close> or in the \<open>catch\<close>).
\<close>

definition destroyCaptured :: "tid \<Rightarrow> handle option \<Rightarrow> world \<Rightarrow> world" where
  "destroyCaptured t captured w = (case captured of None \<Rightarrow> w | Some h \<Rightarrow> emit t (DestroyCall h) w)"

definition deleteKey :: "jsstring \<Rightarrow> world \<Rightarrow> world" where
  "deleteKey key w = setSessions (AList.delete key (sessions (manager w))) w"

definition capture :: "jsstring \<Rightarrow> world \<Rightarrow> handle option" where
  "capture key w = map_option session (map_of (sessions (manager w)) key)"

text \<open>
  \<open>destroyOldestSession\<close> up to its delay; \<open>if (oldestKey)\<close> is false for \<open>null\<close> and for
  the empty string.
\<close>

definition destroyOldestSession :: "tid \<Rightarrow> SessionConfig \<Rightarrow> world \<Rightarrow> gs_status \<times> world" where
  "destroyOldestSession t config w =
     (case fst (oldestScan (sessions (manager w)) (None, None)) of
        None \<Rightarrow> rateLimit t config w
      | Some oldestKey \<Rightarrow>
          if oldestKey = [] then rateLimit t config w
          else (Suspended (DestroyOldestWait (now w + 200) (capture oldestKey w) oldestKey), w))"

text \<open>The capacity check of \<open>getSession\<close> (source lines 53 to 57).\<close>

definition enforceLimit :: "tid \<Rightarrow> SessionConfig \<Rightarrow> world \<Rightarrow> gs_status \<times> world" where
  "enforceLimit t config w =
     (if length (sessions (manager w)) \<ge> MAX_SESSIONS then destroyOldestSession t config w
      else rateLimit t config w)"

text \<open>
  \<open>cleanup\<close>: the keys whose session has been idle for more than \<open>SESSION_TIMEOUT\<close> are
  collected first; the second loop then destroys them one by one, each after a delay.
  \<open>cleanupLoop\<close> is the head of the second loop; after its last key \<open>getSession\<close> goes on
  with the capacity check.
\<close>

definition expiredKeys :: "int \<Rightarrow> (jsstring \<times> ManagedSession) list \<Rightarrow> jsstring list" where
  "expiredKeys n ss = map fst (filter (\<lambda>(key, s). n - lastUsedAt s > SESSION_TIMEOUT) ss)"

definition cleanupLoop :: "tid \<Rightarrow> SessionConfig \<Rightarrow> jsstring list \<Rightarrow> world \<Rightarrow> gs_status \<times> world" where
  "cleanupLoop t config toDestroy w =
     (case toDestroy of
        [] \<Rightarrow> enforceLimit t config w
      | key # rest \<Rightarrow> (Suspended (CleanupWait (now w + 200) (capture key w) key rest), w))"

text \<open>
  \<open>await this.cleanup()\<close> in the step of the call: with nothing to destroy \<open>cleanup\<close>
  returns at once and \<open>getSession\<close> awaits its settled promise.
\<close>

definition cleanup :: "tid \<Rightarrow> SessionConfig \<Rightarrow> world \<Rightarrow> gs_status \<times> world" where
  "cleanup t config w =
     (let toDestroy = expiredKeys (now w) (sessions (manager w))
      in if toDestroy = [] then (Suspended CleanupReturned, w)
         else cleanupLoop t config toDestroy w)"

text \<open>
  The call of \<open>getSession\<close>, up to its first suspension: the lookup and, on a hit, the
  update of \<open>lastUsedAt\<close> and \<open>useCount\<close> and the return of the session.
\<close>

definition getSession :: "tid \<Rightarrow> SessionConfig \<Rightarrow> world \<Rightarrow> gs_status \<times> world" where
  "getSession t config w =
     (case map_of (sessions (manager w)) (sessionKey config) of
        Some existing \<Rightarrow>
          (Returned (session existing),
           setSessions (AList.update (sessionKey config)
              (existing\<lparr>lastUsedAt := now w, useCount := useCount existing + 1\<rparr>)
              (sessions (manager w))) w)
      | None \<Rightarrow> cleanup t config w)"

text \<open>The bookkeeping after a successful creation (source lines 71 to 83).\<close>

definition storeSession :: "SessionConfig \<Rightarrow> handle \<Rightarrow> world \<Rightarrow> world" where
  "storeSession config h w =
     w\<lparr>manager := \<lparr>sessions = AList.update (sessionKey config)
            \<lparr>session = h, stype = ctype config, createdAt = now w, lastUsedAt = now w, useCount = 1\<rparr>
            (sessions (manager w)),
          lastCreationTime = now w\<rparr>\<rparr>"

text \<open>
  The continuation of a suspended \<open>getSession\<close> call. A timer wakes the call only once
  it is due; a response that does not fit the \<open>await\<close> leaves the call suspended. The
  local timeout of a \<open>Promise.race\<close> and the answer of the host are taken in whatever
  order and at whatever time the run gives them; the first to arrive decides the attempt.
\<close>

fun resumeGetSession ::
  "tid \<Rightarrow> SessionConfig \<Rightarrow> gs_pc \<Rightarrow> response \<Rightarrow> world \<Rightarrow> gs_status \<times> world" where
  "resumeGetSession t config CleanupReturned r w =
     (if r = Microtask then enforceLimit t config w else (Suspended CleanupReturned, w))"
| "resumeGetSession t config (CleanupWait due captured key rest) r w =
     (if r = TimerFired \<and> due \<le> now w
      then cleanupLoop t config rest (deleteKey key (destroyCaptured t captured w))
      else (Suspended (CleanupWait due captured key rest), w))"
| "resumeGetSession t config (DestroyOldestWait due captured key) r w =
     (if r = TimerFired \<and> due \<le> now w
      then rateLimit t config (deleteKey key (destroyCaptured t captured w))
      else (Suspended (DestroyOldestWait due captured key), w))"
| "resumeGetSession t config (RateLimitWait due) r w =
     (if r = TimerFired \<and> due \<le> now w then createAttempt t config 0 w
      else (Suspended (RateLimitWait due), w))"
| "resumeGetSession t config (AvailabilityWait i) r w =
     (case r of
        AvailabilityResolved a \<Rightarrow>
          if a \<noteq> available then
            attemptFailed i
              (Error (apiName (ctype config) @ js '' not available: '' @ availabilityName a)) w
          else (Suspended (CreateWait i), emit t (CreateCall (ctype config)) w)
      | Rejected e \<Rightarrow> attemptFailed i e w
      | TimedOut \<Rightarrow> attemptFailed i (Error (js ''Availability check timeout'')) w
      | _ \<Rightarrow> (Suspended (AvailabilityWait i), w))"
| "resumeGetSession t config (CreateWait i) r w =
     (case r of
        Created h \<Rightarrow> (Returned h, storeSession config h w)
      | Rejected e \<Rightarrow> attemptFailed i e w
      | TimedOut \<Rightarrow> attemptFailed i (Error (js ''Session creation timeout'')) w
      | _ \<Rightarrow> (Suspended (CreateWait i), w))"
| "resumeGetSession t config (RetryWait due i) r w =
     (if r = TimerFired \<and> due \<le> now w then createAttempt t config (i + 1) w
      else (Suspended (RetryWait due i), w))"

section \<open>\<open>simplifyArticle\<close>\<close>

definition MAX_INPUT_TOKENS :: int where
  "MAX_INPUT_TOKENS = 4000"

definition CHARS_PER_TOKEN :: int where
  "CHARS_PER_TOKEN = 4"

definition getLengthForLevel :: "SimplificationLevel \<Rightarrow> summary_length" where
  "getLengthForLevel lv = (case lv of High \<Rightarrow> short | Mid \<Rightarrow> medium | Low \<Rightarrow> long)"

definition lengthName :: "summary_length \<Rightarrow> jsstring" where
  "lengthName l = (case l of short \<Rightarrow> js ''short'' | medium \<Rightarrow> js ''medium'' | long \<Rightarrow> js ''long'')"

text \<open>
  \<open>JSON.stringify\<close> of a string (ECMAScript \<open>QuoteJSONString\<close>): the short escapes, a
  \<open>\u\<close> escape with lower-case hexadecimal digits for the other control characters and
  for a surrogate that is not part of a pair, and every other code unit as it is.
\<close>

definition hexDigit :: "nat \<Rightarrow> jschar" where
  "hexDigit d = (if d < 10 then of_nat (48 + d) else of_nat (87 + d))"

definition unicodeEscape :: "jschar \<Rightarrow> jsstring" where
  "unicodeEscape c =
     [0x5C, 0x75, hexDigit (unat c div 4096), hexDigit (unat c div 256 mod 16),
      hexDigit (unat c div 16 mod 16), hexDigit (unat c mod 16)]"

definition isLeadSurrogate :: "jschar \<Rightarrow> bool" where
  "isLeadSurrogate c \<longleftrightarrow> 0xD800 \<le> c \<and> c \<le> 0xDBFF"

definition isTrailSurrogate :: "jschar \<Rightarrow> bool" where
  "isTrailSurrogate c \<longleftrightarrow> 0xDC00 \<le> c \<and> c \<le> 0xDFFF"

definition quoteUnit :: "jschar \<Rightarrow> jsstring" where
  "quoteUnit c =
     (if c = 0x08 then [0x5C, 0x62]
      else if c = 0x09 then [0x5C, 0x74]
      else if c = 0x0A then [0x5C, 0x6E]
      else if c = 0x0C then [0x5C, 0x66]
      else if c = 0x0D then [0x5C, 0x72]
      else if c = 0x22 then [0x5C, 0x22]
      else if c = 0x5C then [0x5C, 0x5C]
      else if c < 0x20 \<or> isLeadSurrogate c \<or> isTrailSurrogate c then unicodeEscape c
      else [c])"

fun quoteUnits :: "jsstring \<Rightarrow> jsstring" where
  "quoteUnits [] = []"
| "quoteUnits [c] = quoteUnit c"
| "quoteUnits (c # d # rest) =
     (if isLeadSurrogate c \<and> isTrailSurrogate d then c # d # quoteUnits rest
      else quoteUnit c @ quoteUnits (d # rest))"

definition quoteJSONString :: "jsstring \<Rightarrow> jsstring" where
  "quoteJSONString s = [0x22] @ quoteUnits s @ [0x22]"

text \<open>
  \<open>JSON.stringify\<close> of \<open>summarizerOptions\<close>: the properties in the order of the object
  literal, \<open>sharedContext\<close> left out when \<open>context\<close> is undefined.
\<close>

definition summarizerOptions :: "SimplifyArgs \<Rightarrow> jsstring" where
  \<open>summarizerOptions args =
     js ''{"type":"key-points","format":"markdown","length":"'' @
     lengthName (getLengthForLevel (level args)) @ js ''"'' @
     (case ctx args of None \<Rightarrow> [] | Some c \<Rightarrow> js '',"sharedContext":'' @ quoteJSONString c) @
     js ''}''\<close>

definition summarizerConfig :: "SimplifyArgs \<Rightarrow> SessionConfig" where
  "summarizerConfig args = \<lparr>ctype = summarizer, options = Some (summarizerOptions args)\<rparr>"

text \<open>\<open>signal?.aborted\<close>\<close>

definition aborted :: "bool option \<Rightarrow> bool" where
  "aborted sig \<longleftrightarrow> sig = Some True"

text \<open>\<open>String.prototype.includes\<close> and \<open>Array.prototype.join\<close>.\<close>

fun str_includes :: "jsstring \<Rightarrow> jsstring \<Rightarrow> bool" where
  "str_includes [] sub \<longleftrightarrow> sub = []"
| "str_includes (c # s) sub \<longleftrightarrow> take (length sub) (c # s) = sub \<or> str_includes s sub"

fun joinWith :: "jsstring \<Rightarrow> jsstring list \<Rightarrow> jsstring" where
  "joinWith sep [] = []"
| "joinWith sep [x] = x"
| "joinWith sep (x # y # rest) = x @ sep @ joinWith sep (y # rest)"

text \<open>
  The \<open>catch\<close> block of \<open>simplifyArticle\<close>: an \<open>Error\<close> whose message mentions
  \<open>cancelled\<close>, \<open>timeout\<close> or \<open>not available\<close> is replaced, anything else rethrown.
\<close>

definition friendlyError :: "thrown \<Rightarrow> thrown" where
  "friendlyError e =
     (case e of
        Error msg \<Rightarrow>
          if str_includes msg (js ''cancelled'') then Error (js ''Simplification was cancelled'')
          else if str_includes msg (js ''timeout'') then
            Error (js ''Simplification timed out. Please try with a shorter article.'')
          else if str_includes msg (js ''not available'') then
            Error (js ''Chrome AI is not available. Please check your setup.'')
          else e
      | NonError \<Rightarrow> e)"

definition caught :: "thrown \<Rightarrow> world \<Rightarrow> task \<times> world" where
  "caught e w = (Done (RejectedWith (friendlyError e)), w)"

definition cancelled :: thrown where
  "cancelled = Error (js ''Operation cancelled'')"

text \<open>
  After the chunk loop (source lines 89 to 103): the summaries are joined with a blank
  line; a combined summary that is still too large is summarized once more, after a check
  of the signal.
\<close>

definition afterLoop ::
  "tid \<Rightarrow> SimplifyArgs \<Rightarrow> bool option \<Rightarrow> handle \<Rightarrow> jsstring list \<Rightarrow> world \<Rightarrow> task \<times> world" where
  "afterLoop t args sig h summaries w =
     (let combinedSummary = joinWith [chNewline, chNewline] summaries
      in if estimateTokens combinedSummary > MAX_INPUT_TOKENS then
           (if aborted sig then caught cancelled w
            else (SimplifyTask args sig (FinalWait h), emit t (SummarizeCall h combinedSummary) w))
         else (Done (Fulfilled (TextValue combinedSummary)), w))"

text \<open>
  The head of the chunk loop at index \<open>i\<close> (source lines 74 to 80): the loop test, the
  check of the signal and the call of \<open>summarize\<close>, which awaits the host.
\<close>

definition chunkLoop ::
  "tid \<Rightarrow> SimplifyArgs \<Rightarrow> bool option \<Rightarrow> handle \<Rightarrow> jsstring list \<Rightarrow> nat \<Rightarrow> jsstring list \<Rightarrow> world
     \<Rightarrow> task \<times> world" where
  "chunkLoop t args sig h chunks i summaries w =
     (if i < length chunks then
        (if aborted sig then caught cancelled w
         else (SimplifyTask args sig (ChunkWait h chunks i summaries),
               emit t (SummarizeCall h (chunks ! i)) w))
      else afterLoop t args sig h summaries w)"

text \<open>After \<open>getSession\<close> has returned the summarizer (source lines 59 to 108).\<close>

definition afterAcquire ::
  "tid \<Rightarrow> SimplifyArgs \<Rightarrow> bool option \<Rightarrow> handle \<Rightarrow> world \<Rightarrow> task \<times> world" where
  "afterAcquire t args sig h w =
     (if aborted sig then caught cancelled w
      else if estimateTokens (content args) > MAX_INPUT_TOKENS then
        (let maxChunkSize = MAX_INPUT_TOKENS * CHARS_PER_TOKEN
         in case splitIntoChunks (content args)
                   (Some \<lparr>maxChunkSize = Some maxChunkSize, overlap = Some 200\<rparr>) of
              None \<Rightarrow> (Diverged, w)
            | Some chunks \<Rightarrow> chunkLoop t args sig h chunks 0 [] w)
      else (SimplifyTask args sig (SingleWait h), emit t (SummarizeCall h (content args)) w))"

definition afterGetSession ::
  "tid \<Rightarrow> SimplifyArgs \<Rightarrow> bool option \<Rightarrow> gs_status \<times> world \<Rightarrow> task \<times> world" where
  "afterGetSession t args sig stw =
     (case fst stw of
        Suspended pc \<Rightarrow> (SimplifyTask args sig (Acquiring pc), snd stw)
      | Returned h \<Rightarrow> afterAcquire t args sig h (snd stw)
      | Threw e \<Rightarrow> caught e (snd stw))"

text \<open>
  The call of \<open>simplifyArticle\<close>, up to \<open>await sessionManager.getSession\<close>, which ends
  the step also when the session came from the pool. The first check of the signal is
  outside the \<open>try\<close>, so its error is not rewritten.
\<close>

definition simplifyArticle :: "tid \<Rightarrow> SimplifyArgs \<Rightarrow> bool option \<Rightarrow> world \<Rightarrow> task \<times> world" where
  "simplifyArticle t args sig w =
     (if aborted sig then (Done (RejectedWith cancelled), w)
      else (case fst (getSession t (summarizerConfig args) w) of
              Returned h \<Rightarrow>
                (SimplifyTask args sig (SessionReturned h), snd (getSession t (summarizerConfig args) w))
            | _ \<Rightarrow> afterGetSession t args sig (getSession t (summarizerConfig args) w)))"

text \<open>
  The continuation of a suspended \<open>simplifyArticle\<close> call. \<open>summarize\<close> logs and rethrows
  a rejection of the host call.
\<close>

fun resumeSimplify ::
  "tid \<Rightarrow> SimplifyArgs \<Rightarrow> bool option \<Rightarrow> sa_pc \<Rightarrow> response \<Rightarrow> world \<Rightarrow> task \<times> world" where
  "resumeSimplify t args sig (Acquiring pc) r w =
     afterGetSession t args sig (resumeGetSession t (summarizerConfig args) pc r w)"
| "resumeSimplify t args sig (SessionReturned h) r w =
     (if r = Microtask then afterAcquire t args sig h w
      else (SimplifyTask args sig (SessionReturned h), w))"
| "resumeSimplify t args sig (ChunkWait h chunks i summaries) r w =
     (case r of
        Summarized summary \<Rightarrow>
          if int i < int (length chunks) - 1 then
            (SimplifyTask args sig (ChunkPause (now w + 500) h chunks i (summaries @ [summary])), w)
          else chunkLoop t args sig h chunks (i + 1) (summaries @ [summary]) w
      | Rejected e \<Rightarrow> caught e w
      | _ \<Rightarrow> (SimplifyTask args sig (ChunkWait h chunks i summaries), w))"
| "resumeSimplify t args sig (ChunkPause due h chunks i summaries) r w =
     (if r = TimerFired \<and> due \<le> now w then chunkLoop t args sig h chunks (i + 1) summaries w
      else (SimplifyTask args sig (ChunkPause due h chunks i summaries), w))"
| "resumeSimplify t args sig (FinalWait h) r w =
     (case r of
        Summarized finalResult \<Rightarrow> (Done (Fulfilled (TextValue finalResult)), w)
      | Rejected e \<Rightarrow> caught e w
      | _ \<Rightarrow> (SimplifyTask args sig (FinalWait h), w))"
| "resumeSimplify t args sig (SingleWait h) r w =
     (case r of
        Summarized result \<Rightarrow> (Done (Fulfilled (TextValue result)), w)
      | Rejected e \<Rightarrow> caught e w
      | _ \<Rightarrow> (SimplifyTask args sig (SingleWait h), w))"

section \<open>\<open>destroyAll\<close> and \<open>destroySession\<close>\<close>

text \<open>
  \<open>destroyAll\<close>: the keys are copied first; for each key the session object is read,
  and after a delay destroyed (an error is logged and swallowed); at the end the map is
  cleared. \<open>destroyAllLoop\<close> is the head of the loop.
\<close>

definition destroyAllLoop :: "jsstring list \<Rightarrow> world \<Rightarrow> task \<times> world" where
  "destroyAllLoop keys w =
     (case keys of
        [] \<Rightarrow> (Done (Fulfilled UndefinedValue), setSessions [] w)
      | key # rest \<Rightarrow> (DestroyTask (DestroyAllWait (now w + 200) (capture key w) rest), w))"

definition destroyAll :: "world \<Rightarrow> task \<times> world" where
  "destroyAll w = destroyAllLoop (map fst (sessions (manager w))) w"

text \<open>
  \<open>destroySession\<close>: nothing happens without a session under the key; otherwise the
  session is destroyed after a delay and the key deleted (in the \<open>try\<close> or in the
  \<open>catch\<close>).
\<close>

definition destroySession :: "SessionConfig \<Rightarrow> world \<Rightarrow> task \<times> world" where
  "destroySession config w =
     (case map_of (sessions (manager w)) (sessionKey config) of
        None \<Rightarrow> (Done (Fulfilled UndefinedValue), w)
      | Some managed \<Rightarrow>
          (DestroyTask (DestroySessionWait (now w + 200) (session managed) (sessionKey config)), w))"

fun resumeDestroy :: "tid \<Rightarrow> destroy_pc \<Rightarrow> response \<Rightarrow> world \<Rightarrow> task \<times> world" where
  "resumeDestroy t (DestroyAllWait due captured rest) r w =
     (if r = TimerFired \<and> due \<le> now w then destroyAllLoop rest (destroyCaptured t captured w)
      else (DestroyTask (DestroyAllWait due captured rest), w))"
| "resumeDestroy t (DestroySessionWait due h key) r w =
     (if r = TimerFired \<and> due \<le> now w
      then (Done (Fulfilled UndefinedValue), deleteKey key (emit t (DestroyCall h) w))
      else (DestroyTask (DestroySessionWait due h key), w))"

section \<open>Events and runs\<close>

text \<open>
  An event is time passing, a new call of \<open>getSession\<close>, \<open>simplifyArticle\<close>,
  \<open>destroyAll\<close> or \<open>destroySession\<close> (under a fresh task identifier), the wake-up of a
  suspended call, or \<open>abort()\<close> on the signal of a \<open>simplifyArticle\<close> call.
\<close>

datatype event =
    Tick nat
  | CallGetSession tid SessionConfig
  | CallSimplifyArticle tid SimplifyArgs "bool option"
  | CallDestroyAll tid
  | CallDestroySession tid SessionConfig
  | Resume tid response
  | Abort tid

definition gsTask :: "SessionConfig \<Rightarrow> gs_status \<Rightarrow> task" where
  "gsTask config st =
     (case st of
        Suspended pc \<Rightarrow> GetSessionTask config pc
      | Returned h \<Rightarrow> Done (Fulfilled (SessionValue h))
      | Threw e \<Rightarrow> Done (RejectedWith e))"

fun step :: "event \<Rightarrow> world \<Rightarrow> world" where
  "step (Tick d) w = w\<lparr>now := now w + int d\<rparr>"
| "step (CallGetSession t config) w =
     (case tasks w t of
        Some _ \<Rightarrow> w
      | None \<Rightarrow> setTask t (gsTask config (fst (getSession t config w))) (snd (getSession t config w)))"
| "step (CallSimplifyArticle t args sig) w =
     (case tasks w t of
        Some _ \<Rightarrow> w
      | None \<Rightarrow> setTask t (fst (simplifyArticle t args sig w)) (snd (simplifyArticle t args sig w)))"
| "step (CallDestroyAll t) w =
     (case tasks w t of
        Some _ \<Rightarrow> w
      | None \<Rightarrow> setTask t (fst (destroyAll w)) (snd (destroyAll w)))"
| "step (CallDestroySession t config) w =
     (case tasks w t of
        Some _ \<Rightarrow> w
      | None \<Rightarrow> setTask t (fst (destroySession config w)) (snd (destroySession config w)))"
| "step (Resume t r) w =
     (case tasks w t of
        Some (GetSessionTask config pc) \<Rightarrow>
          setTask t (gsTask config (fst (resumeGetSession t config pc r w)))
            (snd (resumeGetSession t config pc r w))
      | Some (SimplifyTask args sig pc) \<Rightarrow>
          setTask t (fst (resumeSimplify t args sig pc r w)) (snd (resumeSimplify t args sig pc r w))
      | Some (DestroyTask pc) \<Rightarrow>
          setTask t (fst (resumeDestroy t pc r w)) (snd (resumeDestroy t pc r w))
      | _ \<Rightarrow> w)"
| "step (Abort t) w =
     (case tasks w t of
        Some (SimplifyTask args (Some b) pc) \<Rightarrow> setTask t (SimplifyTask args (Some True) pc) w
      | _ \<Rightarrow> w)"

definition run :: "event list \<Rightarrow> world \<Rightarrow> world" where
  "run evs w = fold step evs w"

text \<open>
  Observations on the trace: the times of the create calls, the calls of one task, and
  the sessions destroyed, in order.
\<close>

definition createTimes :: "host_event list \<Rightarrow> int list" where
  "createTimes tr = map fst (filter (\<lambda>(tm, t, c). case c of CreateCall _ \<Rightarrow> True | _ \<Rightarrow> False) tr)"

definition callsBy :: "tid \<Rightarrow> host_event list \<Rightarrow> host_call list" where
  "callsBy t tr = map (\<lambda>(tm, t', c). c) (filter (\<lambda>(tm, t', c). t' = t) tr)"

definition destroyed :: "host_event list \<Rightarrow> handle list" where
  "destroyed tr = concat (map (\<lambda>(tm, t, c). case c of DestroyCall h \<Rightarrow> [h] | _ \<Rightarrow> []) tr)"

section \<open>Vocabulary of the properties\<close>

text \<open>
  A call that will make no further host call: it has settled, or it awaits the host
  call after which it settles.
\<close>

definition settledOrLastCall :: "world \<Rightarrow> tid \<Rightarrow> bool" where
  "settledOrLastCall w t \<longleftrightarrow>
     (case tasks w t of
        Some (Done x) \<Rightarrow> True
      | Some (SimplifyTask args sig (FinalWait h)) \<Rightarrow> True
      | Some (SimplifyTask args sig (SingleWait h)) \<Rightarrow> True
      | _ \<Rightarrow> False)"

text \<open>
  A \<open>simplifyArticle\<close> call that has acquired session \<open>h\<close> and is not done with it: a host
  call on it is in flight, or chunks or the final pass are still to come.
\<close>

definition holdsSession :: "world \<Rightarrow> tid \<Rightarrow> handle \<Rightarrow> bool" where
  "holdsSession w u h \<longleftrightarrow>
     (case tasks w u of
        Some (SimplifyTask args sig (SessionReturned h')) \<Rightarrow> h' = h
      | Some (SimplifyTask args sig (ChunkWait h' chunks i summaries)) \<Rightarrow> h' = h
      | Some (SimplifyTask args sig (ChunkPause due h' chunks i summaries)) \<Rightarrow> h' = h
      | Some (SimplifyTask args sig (FinalWait h')) \<Rightarrow> h' = h
      | Some (SimplifyTask args sig (SingleWait h')) \<Rightarrow> h' = h
      | _ \<Rightarrow> False)"

text \<open>What the code run for another call leaves alone: the calls in progress and the host calls of \<open>t\<close>.\<close>

definition untouched :: "tid \<Rightarrow> world \<Rightarrow> world \<Rightarrow> bool" where
  "untouched t w w' \<longleftrightarrow> tasks w' = tasks w \<and> callsBy t (trace w') = callsBy t (trace w)"

text \<open>
  \<open>n\<close> delays of 200 ms of call \<open>t\<close>, one after the other: each time 200 ms pass and
  the timer of \<open>t\<close> fires. The idle sweep and \<open>destroyAll\<close> wait once per session.
\<close>

definition timerTurns :: "tid \<Rightarrow> nat \<Rightarrow> event list" where
  "timerTurns t n = concat (replicate n [Tick 200, Resume t TimerFired])"

text \<open>Code that leaves the pool, the clock, the calls in progress and the destroyed sessions as they are.\<close>

definition quiet :: "world \<Rightarrow> world \<Rightarrow> bool" where
  "quiet w w' \<longleftrightarrow>
     manager w' = manager w \<and> destroyed (trace w') = destroyed (trace w) \<and> tasks w' = tasks w \<and>
     now w' = now w"

section \<open>Example inputs\<close>

text \<open>
  Four configs with four different keys, a short article, and a start time (in
  milliseconds since the epoch; \<open>lastCreationTime\<close> starts at 0).
\<close>

definition configA :: SessionConfig where
  "configA = \<lparr>ctype = summarizer, options = None\<rparr>"

definition configB :: SessionConfig where
  "configB = \<lparr>ctype = languageModel, options = None\<rparr>"

definition configC :: SessionConfig where
  \<open>configC = \<lparr>ctype = languageModel, options = Some (js ''{"temperature":0.7,"topK":3}'')\<rparr>\<close>

definition configD :: SessionConfig where
  \<open>configD = \<lparr>ctype = languageModel, options = Some (js ''{"temperature":1,"topK":3}'')\<rparr>\<close>

definition shortArticle :: SimplifyArgs where
  "shortArticle = \<lparr>content = js ''A short article.'', level = Mid, ctx = None\<rparr>"

definition startTime :: int where
  "startTime = 1700000000000"

text \<open>
  Two calls of \<open>getSession\<close> for different configs arrive in the same turn on an empty
  pool and continue in their microtasks; the availability probes answer after 5 ms and
  8 ms.
\<close>

definition twoConcurrentCalls :: "event list" where
  "twoConcurrentCalls =
     [CallGetSession 1 configA, CallGetSession 2 configB,
      Resume 1 Microtask, Resume 2 Microtask,
      Tick 5, Resume 1 (AvailabilityResolved available),
      Tick 3, Resume 2 (AvailabilityResolved available)]"

text \<open>Four calls for four configs in flight at once, all created successfully.\<close>

definition fourConcurrentCalls :: "event list" where
  "fourConcurrentCalls =
     [CallGetSession 1 configA, CallGetSession 2 configB,
      CallGetSession 3 configC, CallGetSession 4 configD,
      Resume 1 Microtask, Resume 2 Microtask, Resume 3 Microtask, Resume 4 Microtask,
      Tick 5,
      Resume 1 (AvailabilityResolved available), Resume 2 (AvailabilityResolved available),
      Resume 3 (AvailabilityResolved available), Resume 4 (AvailabilityResolved available),
      Tick 100,
      Resume 1 (Created 11), Resume 2 (Created 12), Resume 3 (Created 13), Resume 4 (Created 14)]"

text \<open>
  A second call arrives 100 ms after the first one has issued its create call, which is
  still pending.
\<close>

definition secondCallDuringCreate :: "event list" where
  "secondCallDuringCreate =
     [CallGetSession 1 configA, Resume 1 Microtask,
      Tick 5, Resume 1 (AvailabilityResolved available),
      Tick 100, CallGetSession 2 configB, Resume 2 Microtask]"

text \<open>
  One call whose first create attempt is rejected and whose retry succeeds, then a
  second call with the same config.
\<close>

definition retriedThenReused :: "event list" where
  "retriedThenReused =
     [CallGetSession 1 configA, Resume 1 Microtask, Resume 1 (AvailabilityResolved available),
      Tick 10, Resume 1 (Rejected (Error (js ''The session could not be created.''))),
      Tick 2000, Resume 1 TimerFired, Resume 1 (AvailabilityResolved available),
      Tick 10, Resume 1 (Created 7),
      Tick 5, CallGetSession 2 configA]"

text \<open>
  \<open>simplifyArticle\<close> acquires session 11 and its host call is in flight; meanwhile two
  calls of \<open>getSession\<close> for other configs follow, more than a second apart, and fill the
  pool. A third call for a fourth config then finds the pool full.
\<close>

definition poolFilledDuringSummarize :: "event list" where
  "poolFilledDuringSummarize =
     [CallSimplifyArticle 1 shortArticle None, Resume 1 Microtask,
      Resume 1 (AvailabilityResolved available), Tick 50, Resume 1 (Created 11),
      Tick 1000, CallGetSession 2 configB, Resume 2 Microtask,
      Resume 2 (AvailabilityResolved available), Tick 50, Resume 2 (Created 12),
      Tick 1000, CallGetSession 3 configC, Resume 3 Microtask,
      Resume 3 (AvailabilityResolved available), Tick 50, Resume 3 (Created 13),
      Tick 1000]"

definition evictionDuringSummarize :: "event list" where
  "evictionDuringSummarize =
     poolFilledDuringSummarize @
       [CallGetSession 4 configD, Resume 4 Microtask, Tick 200, Resume 4 TimerFired]"

text \<open>In the same situation \<open>destroyAll\<close> is called instead.\<close>

definition destroyAllDuringSummarize :: "event list" where
  "destroyAllDuringSummarize =
     poolFilledDuringSummarize @ [CallDestroyAll 5, Tick 200, Resume 5 TimerFired]"

text \<open>A session created at the first attempt.\<close>

definition createdOnce :: "event list" where
  "createdOnce =
     [CallGetSession 1 configA, Resume 1 Microtask, Resume 1 (AvailabilityResolved available),
      Tick 10, Resume 1 (Created 7)]"

text \<open>
  An article of 16001 letters (two chunks) and one of 70000 letters (five chunks), and
  a summary of 8000 letters.
\<close>

definition longArticle :: SimplifyArgs where
  "longArticle = \<lparr>content = replicate 16001 0x61, level = High, ctx = None\<rparr>"

definition longSummary :: jsstring where
  "longSummary = replicate 8000 0x62"

definition fiveChunkArticle :: SimplifyArgs where
  "fiveChunkArticle = \<lparr>content = replicate 70000 0x61, level = Mid, ctx = None\<rparr>"

definition fiveChunks :: "jsstring list" where
  "fiveChunks = [replicate 16000 0x61, replicate 16000 0x61, replicate 16000 0x61,
                 replicate 16000 0x61, replicate 6800 0x61]"

text \<open>
  The second (and last) chunk of the long article is in flight, the first summary is in.
\<close>

definition secondChunkInFlight :: "event list" where
  "secondChunkInFlight =
     [CallSimplifyArticle 1 longArticle (Some False), Resume 1 Microtask,
      Resume 1 (AvailabilityResolved available), Tick 50, Resume 1 (Created 11),
      Tick 900, Resume 1 (Summarized longSummary),
      Tick 500, Resume 1 TimerFired]"

text \<open>
  Two of five chunks are summarized; the signal is aborted during the pause before the
  third chunk.
\<close>

definition abortedBeforeThirdChunk :: "event list" where
  "abortedBeforeThirdChunk =
     [CallSimplifyArticle 1 fiveChunkArticle (Some False), Resume 1 Microtask,
      Resume 1 (AvailabilityResolved available), Tick 50, Resume 1 (Created 11),
      Tick 900, Resume 1 (Summarized (js ''First summary.'')),
      Tick 500, Resume 1 TimerFired,
      Tick 900, Resume 1 (Summarized (js ''Second summary.'')),
      Tick 100, Abort 1, Tick 400]"

text \<open>
  The host takes 100 seconds for each chunk of the five-chunk article; the fourth chunk
  is in flight more than five minutes after the session was acquired. A call of
  \<open>getSession\<close> for another config then starts the idle sweep.
\<close>

definition fourthChunkInFlight :: "event list" where
  "fourthChunkInFlight =
     [CallSimplifyArticle 1 fiveChunkArticle None, Resume 1 Microtask,
      Resume 1 (AvailabilityResolved available), Tick 50, Resume 1 (Created 11),
      Tick 100000, Resume 1 (Summarized (js ''First summary.'')),
      Tick 500, Resume 1 TimerFired,
      Tick 100000, Resume 1 (Summarized (js ''Second summary.'')),
      Tick 500, Resume 1 TimerFired,
      Tick 100000, Resume 1 (Summarized (js ''Third summary.'')),
      Tick 500, Resume 1 TimerFired]"

definition sweepDuringChunks :: "event list" where
  "sweepDuringChunks =
     fourthChunkInFlight @ [CallGetSession 2 configB, Tick 200, Resume 2 TimerFired]"

section \<open>Properties of the text chunker\<close>

lemma lastIndexFrom_bounds: "- 1 \<le> lastIndexFrom s c k \<and> lastIndexFrom s c k < int k"
  by (induction k) auto

lemma breakPoint_bounds: "- 1 \<le> breakPoint chunk \<and> breakPoint chunk < int (length chunk)"
  using lastIndexFrom_bounds [of chunk chPeriod "length chunk"]
    lastIndexFrom_bounds [of chunk chNewline "length chunk"]
    lastIndexFrom_bounds [of chunk chSpace "length chunk"]
  by (simp add: breakPoint_def lastIndexOf_def Let_def max_def)

lemma length_substring_le: "a \<le> b \<Longrightarrow> int (length (substring s a b)) \<le> b - a"
  by (auto simp: substring_def Let_def min_def max_def)

lemma length_substring_le_length: "length (substring s a b) \<le> length s"
  by (auto simp: substring_def Let_def min_def max_def)

lemma length_trim_le: "length (trim s) \<le> length s"
proof -
  have "length (trim s) \<le> length (dropWhile isWhiteSpace s)"
    unfolding trim_def using length_dropWhile_le [of isWhiteSpace "rev (dropWhile isWhiteSpace s)"]
    by simp
  also have "\<dots> \<le> length s" by (rule length_dropWhile_le)
  finally show ?thesis .
qed

lemma splitStep_chunk_le:
  assumes "startIndex < int (length text)" "0 \<le> maxSize"
  shows "int (length (fst (splitStep text maxSize ovl startIndex))) \<le> maxSize"
proof -
  define endIndex where "endIndex = min (startIndex + maxSize) (int (length text))"
  define chunk where "chunk = substring text startIndex endIndex"
  have se: "startIndex \<le> endIndex" "endIndex - startIndex \<le> maxSize"
    using assms by (auto simp: endIndex_def)
  have lc: "int (length chunk) \<le> maxSize"
    using length_substring_le [OF se(1), of "text"] se(2) by (simp add: chunk_def)
  show ?thesis
  proof (cases "endIndex < int (length text) \<and> 2 * breakPoint chunk > maxSize")
    case True
    then have bp: "0 \<le> breakPoint chunk + 1" using assms(2) by linarith
    have "int (length (substring text startIndex (startIndex + breakPoint chunk + 1))) \<le> breakPoint chunk + 1"
      using length_substring_le [of startIndex "startIndex + breakPoint chunk + 1" "text"] bp by simp
    also have "\<dots> \<le> int (length chunk)" using breakPoint_bounds [of chunk] by simp
    finally show ?thesis using True lc
      by (simp add: splitStep_def Let_def endIndex_def [symmetric] chunk_def [symmetric])
  next
    case False
    then show ?thesis using lc
      by (auto simp: splitStep_def Let_def endIndex_def [symmetric] chunk_def [symmetric])
  qed
qed

lemma splitStep_next_gt:
  assumes "startIndex < int (length text)" "1 \<le> maxSize" "0 \<le> ovl" "2 * ovl \<le> maxSize"
  shows "startIndex < snd (splitStep text maxSize ovl startIndex)"
  using assms by (auto simp: splitStep_def Let_def min_def)

lemma splitStep_next_le:
  assumes "startIndex < int (length text)" "0 \<le> maxSize" "0 \<le> ovl"
  shows "snd (splitStep text maxSize ovl startIndex) \<le> startIndex + maxSize"
proof -
  define endIndex where "endIndex = min (startIndex + maxSize) (int (length text))"
  define chunk where "chunk = substring text startIndex endIndex"
  have se: "startIndex \<le> endIndex" "endIndex \<le> startIndex + maxSize"
    using assms by (auto simp: endIndex_def)
  have "int (length chunk) \<le> maxSize"
    using length_substring_le [OF se(1), of "text"] se(2) by (simp add: chunk_def)
  then have "breakPoint chunk + 1 \<le> maxSize" using breakPoint_bounds [of chunk] by linarith
  then show ?thesis using assms se
    by (simp add: splitStep_def Let_def endIndex_def [symmetric] chunk_def [symmetric])
qed

lemma splitLoop_total:
  assumes "1 \<le> maxSize" "0 \<le> ovl" "2 * ovl \<le> maxSize"
  shows "\<exists>res. splitLoop text maxSize ovl startIndex chunks = Some res"
proof (induction "nat (int (length text) - startIndex)" arbitrary: startIndex chunks rule: less_induct)
  case less
  show ?case
  proof (cases "startIndex < int (length text)")
    case True
    let ?n = "snd (splitStep text maxSize ovl startIndex)"
    have "startIndex < ?n" using splitStep_next_gt [OF True assms] .
    then have "nat (int (length text) - ?n) < nat (int (length text) - startIndex)"
      using True by linarith
    from less [OF this] show ?thesis using True by (subst splitLoop.simps) simp
  next
    case False
    then show ?thesis by (subst splitLoop.simps) simp
  qed
qed

lemma splitLoop_chunks_le:
  assumes "splitLoop tx maxSize ovl startIndex chunks = Some res"
    and "0 \<le> maxSize" and "\<forall>c\<in>set chunks. int (length c) \<le> maxSize"
  shows "\<forall>c\<in>set res. int (length c) \<le> maxSize"
proof -
  have "0 \<le> maxSize \<longrightarrow> (\<forall>c\<in>set chunks. int (length c) \<le> maxSize) \<longrightarrow>
         (\<forall>c\<in>set res. int (length c) \<le> maxSize)"
  proof (rule splitLoop.raw_induct [where P = "\<lambda>tx m ov s cs r.
            0 \<le> m \<longrightarrow> (\<forall>c\<in>set cs. int (length c) \<le> m) \<longrightarrow> (\<forall>c\<in>set r. int (length c) \<le> m)",
          OF _ assms(1)])
    fix f tx m ov s cs r
    assume IH: "\<And>tx m ov s cs r. f tx m ov s cs = Some r \<Longrightarrow>
            0 \<le> m \<longrightarrow> (\<forall>c\<in>set cs. int (length c) \<le> m) \<longrightarrow> (\<forall>c\<in>set r. int (length c) \<le> m)"
      and eq: "(if s < int (length tx)
                then f tx m ov (snd (splitStep tx m ov s)) (cs @ [trim (fst (splitStep tx m ov s))])
                else Some cs) = Some r"
    show "0 \<le> m \<longrightarrow> (\<forall>c\<in>set cs. int (length c) \<le> m) \<longrightarrow> (\<forall>c\<in>set r. int (length c) \<le> m)"
    proof (cases "s < int (length tx)")
      case True
      have t: "0 \<le> m \<Longrightarrow> int (length (trim (fst (splitStep tx m ov s)))) \<le> m"
        using splitStep_chunk_le [OF True, of m ov] length_trim_le [of "fst (splitStep tx m ov s)"]
        by linarith
      have "f tx m ov (snd (splitStep tx m ov s)) (cs @ [trim (fst (splitStep tx m ov s))]) = Some r"
        using eq True by simp
      from IH [OF this] t show ?thesis by simp
    next
      case False
      then have "r = cs" using eq by simp
      then show ?thesis by simp
    qed
  qed
  then show ?thesis using assms(2,3) by blast
qed

lemma splitLoop_length_mono:
  assumes "splitLoop tx maxSize ovl startIndex chunks = Some res"
  shows "length chunks \<le> length res"
proof (rule splitLoop.raw_induct [where P = "\<lambda>tx m ov s cs r. length cs \<le> length r", OF _ assms])
  fix f tx m ov s cs r
  assume IH: "\<And>tx m ov s cs r. f tx m ov s cs = Some r \<Longrightarrow> length cs \<le> length r"
    and eq: "(if s < int (length tx)
              then f tx m ov (snd (splitStep tx m ov s)) (cs @ [trim (fst (splitStep tx m ov s))])
              else Some cs) = Some r"
  show "length cs \<le> length r"
  proof (cases "s < int (length tx)")
    case True
    then have "f tx m ov (snd (splitStep tx m ov s)) (cs @ [trim (fst (splitStep tx m ov s))]) = Some r"
      using eq by simp
    from IH [OF this] show ?thesis by simp
  next
    case False
    then have "r = cs" using eq by simp
    then show ?thesis by simp
  qed
qed

lemma splitLoop_count:
  assumes "0 \<le> maxSize" "0 \<le> ovl"
  shows "splitLoop text maxSize ovl startIndex chunks = Some res \<Longrightarrow>
         startIndex + int k * maxSize < int (length text) \<Longrightarrow>
         length chunks + k + 1 \<le> length res"
proof (induction k arbitrary: startIndex chunks)
  case 0
  then have lt: "startIndex < int (length text)" by simp
  from 0(1) have "splitLoop text maxSize ovl (snd (splitStep text maxSize ovl startIndex))
      (chunks @ [trim (fst (splitStep text maxSize ovl startIndex))]) = Some res"
    using lt by (subst (asm) splitLoop.simps) simp
  from splitLoop_length_mono [OF this] show ?case by simp
next
  case (Suc k)
  have "0 \<le> int (Suc k) * maxSize" using assms(1) by simp
  then have lt: "startIndex < int (length text)" using Suc.prems(2) by linarith
  let ?n = "snd (splitStep text maxSize ovl startIndex)"
  from Suc.prems(1) have r: "splitLoop text maxSize ovl ?n
      (chunks @ [trim (fst (splitStep text maxSize ovl startIndex))]) = Some res"
    using lt by (subst (asm) splitLoop.simps) simp
  have "?n \<le> startIndex + maxSize" using splitStep_next_le [OF lt assms] .
  then have "?n + int k * maxSize < int (length text)"
    using Suc.prems(2) by (simp add: algebra_simps)
  from Suc.IH [OF r this] show ?case by simp
qed


text \<open>
  Claim C10. \<open>splitIntoChunks\<close> returns a (finite) list of chunks for every text
  whenever the effective options satisfy \<open>maxChunkSize \<ge> 1\<close> and
  \<open>0 \<le> overlap \<le> maxChunkSize / 2\<close>, and under this precondition every iteration of
  the loop strictly increases \<open>startIndex\<close>. The effective options are those after the
  defaults have been filled in, so the statement covers the defaults (4000, 200) and
  the call sites (16000, 200).
\<close>

theorem splitIntoChunks_terminates:
  assumes "1 \<le> optMaxSize opts" and "0 \<le> optOverlap opts"
    and "2 * optOverlap opts \<le> optMaxSize opts"
  shows "(\<exists>chunks. splitIntoChunks tx opts = Some chunks) \<and>
         (\<forall>s. s < int (length tx) \<longrightarrow>
              s < snd (splitStep tx (optMaxSize opts) (optOverlap opts) s))"
proof
  show "\<exists>chunks. splitIntoChunks tx opts = Some chunks"
    using splitLoop_total [OF assms, of tx 0 "[]"] by (simp add: splitIntoChunks_def Let_def)
  show "\<forall>s. s < int (length tx) \<longrightarrow>
            s < snd (splitStep tx (optMaxSize opts) (optOverlap opts) s)"
    using splitStep_next_gt [OF _ assms] by blast
qed

text \<open>
  The precondition holds for the defaults, for the options of the call sites and for a
  small window; the loop then returns and its first step moves forward.
\<close>

theorem splitIntoChunks_terminates_witness:
  "(\<exists>chunks. splitIntoChunks (replicate 10 0x61) None = Some chunks) \<and>
   (\<exists>chunks. splitIntoChunks (replicate 10 0x61)
        (Some \<lparr>maxChunkSize = Some 16000, overlap = Some 200\<rparr>) = Some chunks) \<and>
   (\<exists>chunks. splitIntoChunks (replicate 10 0x61)
        (Some \<lparr>maxChunkSize = Some 4, overlap = Some 1\<rparr>) = Some chunks) \<and>
   0 < snd (splitStep (replicate 10 0x61) 4 1 0)"
  using splitIntoChunks_terminates [of None "replicate 10 0x61"]
    splitIntoChunks_terminates [of "Some \<lparr>maxChunkSize = Some 16000, overlap = Some 200\<rparr>" "replicate 10 0x61"]
    splitIntoChunks_terminates [of "Some \<lparr>maxChunkSize = Some 4, overlap = Some 1\<rparr>" "replicate 10 0x61"]
  by (simp add: optMaxSize_def optOverlap_def DEFAULT_CHUNK_SIZE_def DEFAULT_OVERLAP_def)

text \<open>Texts of one repeated character that is not a break character.\<close>

lemma lastIndexFrom_replicate:
  "a \<noteq> c \<Longrightarrow> k \<le> n \<Longrightarrow> lastIndexFrom (replicate n a) c k = - 1"
  by (induction k) auto

lemma breakPoint_replicate:
  "a \<noteq> chPeriod \<Longrightarrow> a \<noteq> chNewline \<Longrightarrow> a \<noteq> chSpace \<Longrightarrow> breakPoint (replicate n a) = - 1"
  by (simp add: breakPoint_def lastIndexOf_def lastIndexFrom_replicate)

lemma dropWhile_replicate: "\<not> P a \<Longrightarrow> dropWhile P (replicate n a) = replicate n a"
  by (cases n) simp_all

lemma trim_replicate: "\<not> isWhiteSpace a \<Longrightarrow> trim (replicate n a) = replicate n a"
  by (simp add: trim_def dropWhile_replicate)

lemma letter_a:
  "(0x61 :: jschar) \<noteq> chPeriod" "(0x61 :: jschar) \<noteq> chNewline" "(0x61 :: jschar) \<noteq> chSpace"
  "\<not> isWhiteSpace 0x61"
  by (simp_all add: chPeriod_def chNewline_def chSpace_def isWhiteSpace_def)

text \<open>
  A window of 2 with overlap 200 on seven letters: every step moves \<open>startIndex\<close> back by
  198, so the loop never reaches the end of the text.
\<close>

lemma splitStep_backward:
  "s \<le> 0 \<Longrightarrow> snd (splitStep (replicate 7 0x61) 2 200 s) = s - 198"
  by (simp add: splitStep_def substring_def Let_def breakPoint_replicate letter_a)

lemma splitLoop_backward:
  "s \<le> 0 \<Longrightarrow> splitLoop (replicate 7 0x61) 2 200 s chunks = None"
proof (rule ccontr)
  assume s: "s \<le> 0" and "splitLoop (replicate 7 0x61) 2 200 s chunks \<noteq> None"
  then obtain res where res: "splitLoop (replicate 7 0x61) 2 200 s chunks = Some res" by blast
  have "replicate 7 (0x61 :: jschar) = replicate 7 0x61 \<and> (2 :: int) = 2 \<and> (200 :: int) = 200 \<and> s \<le> 0 \<longrightarrow> False"
  proof (rule splitLoop.raw_induct [where P = "\<lambda>tx m ov s cs r.
            tx = replicate 7 0x61 \<and> m = 2 \<and> ov = 200 \<and> s \<le> 0 \<longrightarrow> False", OF _ res])
    fix f tx m ov s cs r
    assume IH: "\<And>tx m ov s cs r. f tx m ov s cs = Some r \<Longrightarrow>
            tx = replicate 7 0x61 \<and> m = 2 \<and> ov = 200 \<and> s \<le> 0 \<longrightarrow> False"
      and eq: "(if s < int (length tx)
                then f tx m ov (snd (splitStep tx m ov s)) (cs @ [trim (fst (splitStep tx m ov s))])
                else Some cs) = Some r"
    show "tx = replicate 7 0x61 \<and> m = 2 \<and> ov = 200 \<and> s \<le> 0 \<longrightarrow> False"
    proof
      assume a: "tx = replicate 7 0x61 \<and> m = 2 \<and> ov = 200 \<and> s \<le> 0"
      then have lt: "s < int (length tx)" by simp
      have "f tx m ov (snd (splitStep tx m ov s)) (cs @ [trim (fst (splitStep tx m ov s))]) = Some r"
        using eq lt by simp
      from IH [OF this] a splitStep_backward [of s] show False by simp
    qed
  qed
  then show False using s by simp
qed

text \<open>
  Claim C7 says that for every text longer than the maximum every chunk of the splitter
  is within the maximum, and that a text of 3.5 times the maximum split with overlap 200
  gives at least 4 chunks within the maximum. The claim puts no condition on the
  maximum. Seven letters are 3.5 times a maximum of 2; split with overlap 200 the
  splitter never returns, so there is no plan and no chunk.
\<close>

theorem small_window_never_returns:
  "2 * int (length (replicate 7 (0x61 :: jschar))) = 7 * 2 \<and>
   2 < int (length (replicate 7 (0x61 :: jschar))) \<and>
   splitIntoChunks (replicate 7 0x61) (Some \<lparr>maxChunkSize = Some 2, overlap = Some 200\<rparr>) = None"
  using splitLoop_backward [of 0 "[]"]
  by (simp add: splitIntoChunks_def optMaxSize_def optOverlap_def Let_def)

text \<open>
  Claim C7, amended. Whenever \<open>maxChunkSize \<ge> 1\<close> and \<open>0 \<le> overlap \<le> maxChunkSize / 2\<close>
  (the precondition of C10, true of the defaults and of the call sites), the splitter
  returns, every chunk it returns has at most \<open>maxChunkSize\<close> code units, and a text of
  3.5 times \<open>maxChunkSize\<close> split with overlap 200 gives at least 4 chunks.
\<close>

theorem chunks_within_limit:
  assumes "1 \<le> m" and "0 \<le> ov" and "2 * ov \<le> m"
  shows "\<exists>chunks. splitIntoChunks tx (Some \<lparr>maxChunkSize = Some m, overlap = Some ov\<rparr>) = Some chunks \<and>
           (\<forall>c\<in>set chunks. int (length c) \<le> m) \<and>
           (ov = 200 \<and> 2 * int (length tx) = 7 * m \<longrightarrow> 4 \<le> length chunks)"
proof (cases "int (length tx) \<le> m")
  case True
  then show ?thesis using assms
    by (simp add: splitIntoChunks_def optMaxSize_def optOverlap_def Let_def)
next
  case False
  obtain res where res: "splitLoop tx m ov 0 [] = Some res"
    using splitLoop_total [OF assms, of tx 0 "[]"] by blast
  have le: "\<forall>c\<in>set res. int (length c) \<le> m"
    using splitLoop_chunks_le [OF res] assms(1) by simp
  have cnt: "4 \<le> length res" if "2 * int (length tx) = 7 * m"
  proof -
    have "0 + int 3 * m < int (length tx)" using that assms(1) by simp
    from splitLoop_count [OF _ assms(2) res this] assms(1) show ?thesis by simp
  qed
  show ?thesis using False res le cnt
    by (simp add: splitIntoChunks_def optMaxSize_def optOverlap_def Let_def)
qed

text \<open>
  A text of 1400 code units, window 400, overlap 200.
\<close>

theorem chunks_within_limit_witness:
  "\<exists>chunks. splitIntoChunks (replicate 1400 0x61)
        (Some \<lparr>maxChunkSize = Some 400, overlap = Some 200\<rparr>) = Some chunks \<and>
     (\<forall>c\<in>set chunks. int (length c) \<le> 400) \<and> 4 \<le> length chunks"
  using chunks_within_limit [of 400 200 "replicate 1400 0x61"] by simp

text \<open>
  Claim C8 says that a non-final window without a break point past its half yields a
  chunk that ends \<open>overlap\<close> characters before the window edge. In the source the chunk is
  the whole window; only the next window starts \<open>overlap\<close> characters before the edge.
  Ten letters \<open>a\<close>, window 4, overlap 1: the first window is not final and has no break
  character, the chunk is \<open>aaaa\<close> (not \<open>aaa\<close>), and the next window starts at 3.
\<close>

theorem no_break_cut_counterexample:
  "min (0 + 4) (int (length (replicate 10 (0x61 :: jschar)))) < int (length (replicate 10 (0x61 :: jschar))) \<and>
   \<not> 2 * breakPoint (substring (replicate 10 0x61) 0 (0 + 4)) > 4 \<and>
   fst (splitStep (replicate 10 0x61) 4 1 0) \<noteq> substring (replicate 10 0x61) 0 (0 + 4 - 1) \<and>
   splitStep (replicate 10 0x61) 4 1 0 = (replicate 4 0x61, 3) \<and>
   splitIntoChunks (replicate 10 0x61) (Some \<lparr>maxChunkSize = Some 4, overlap = Some 1\<rparr>)
     = Some [replicate 4 0x61, replicate 4 0x61, replicate 4 0x61]"
  by code_simp

text \<open>
  Claim C8, amended. In a non-final window whose break point is not past half of
  \<open>maxChunkSize\<close>, the chunk is the whole window, cut exactly at the window edge (and then
  trimmed), and the next window starts \<open>overlap\<close> characters before that edge.
\<close>

theorem no_break_cut_at_window_edge:
  assumes "startIndex < int (length tx)"
    and "startIndex + maxSize < int (length tx)"
    and "2 * breakPoint (substring tx startIndex (startIndex + maxSize)) \<le> maxSize"
  shows "splitStep tx maxSize ovl startIndex =
           (substring tx startIndex (startIndex + maxSize), startIndex + maxSize - ovl) \<and>
         splitLoop tx maxSize ovl startIndex chunks =
           splitLoop tx maxSize ovl (startIndex + maxSize - ovl)
             (chunks @ [trim (substring tx startIndex (startIndex + maxSize))])"
proof -
  have st: "splitStep tx maxSize ovl startIndex =
           (substring tx startIndex (startIndex + maxSize), startIndex + maxSize - ovl)"
    using assms(2,3) by (simp add: splitStep_def Let_def)
  show ?thesis using st assms(1) by (subst splitLoop.simps) simp
qed

text \<open>
  The amended statement at the input of the counterexample.
\<close>

theorem no_break_cut_at_window_edge_witness:
  "splitStep (replicate 10 0x61) 4 1 0 = (substring (replicate 10 0x61) 0 (0 + 4), 0 + 4 - 1) \<and>
   splitLoop (replicate 10 0x61) 4 1 0 [] =
     splitLoop (replicate 10 0x61) 4 1 (0 + 4 - 1) ([] @ [trim (substring (replicate 10 0x61) 0 (0 + 4))])"
proof -
  have a: "(0::int) < int (length (replicate 10 (0x61 :: jschar)))" by simp
  have b: "(0::int) + 4 < int (length (replicate 10 (0x61 :: jschar)))" by simp
  have c: "2 * breakPoint (substring (replicate 10 0x61) 0 (0 + 4)) \<le> 4" by code_simp
  show ?thesis using no_break_cut_at_window_edge [OF a b c] .
qed

section \<open>Steps of other calls\<close>

lemma tasks_emit [simp]: "tasks (emit t c w) = tasks w"
  by (simp add: emit_def)

lemma now_emit [simp]: "now (emit t c w) = now w"
  by (simp add: emit_def)

lemma manager_emit [simp]: "manager (emit t c w) = manager w"
  by (simp add: emit_def)

lemma apiPresent_emit [simp]: "apiPresent (emit t c w) = apiPresent w"
  by (simp add: emit_def)

lemma trace_emit [simp]: "trace (emit t c w) = trace w @ [(now w, t, c)]"
  by (simp add: emit_def)

lemma callsBy_append [simp]: "callsBy t (xs @ ys) = callsBy t xs @ callsBy t ys"
  by (simp add: callsBy_def)

lemma callsBy_single [simp]: "callsBy t [(tm, t', c)] = (if t' = t then [c] else [])"
  by (simp add: callsBy_def)

lemma setSessions_simps [simp]:
  "tasks (setSessions ss w) = tasks w" "trace (setSessions ss w) = trace w"
  "now (setSessions ss w) = now w" "apiPresent (setSessions ss w) = apiPresent w"
  "sessions (manager (setSessions ss w)) = ss"
  "lastCreationTime (manager (setSessions ss w)) = lastCreationTime (manager w)"
  by (simp_all add: setSessions_def)

lemma deleteKey_simps [simp]:
  "tasks (deleteKey k w) = tasks w" "trace (deleteKey k w) = trace w"
  "now (deleteKey k w) = now w" "apiPresent (deleteKey k w) = apiPresent w"
  by (simp_all add: deleteKey_def)

lemma storeSession_simps [simp]:
  "tasks (storeSession c h w) = tasks w" "trace (storeSession c h w) = trace w"
  "now (storeSession c h w) = now w"
  by (simp_all add: storeSession_def)

lemma destroyCaptured_simps [simp]:
  "tasks (destroyCaptured t cap w) = tasks w" "now (destroyCaptured t cap w) = now w"
  "apiPresent (destroyCaptured t cap w) = apiPresent w"
  by (simp_all add: destroyCaptured_def split: option.splits)

lemma callsBy_destroyCaptured [simp]:
  "t' \<noteq> t \<Longrightarrow> callsBy t (trace (destroyCaptured t' cap w)) = callsBy t (trace w)"
  by (simp add: destroyCaptured_def split: option.splits)

lemma setTask_simps [simp]:
  "tasks (setTask t tk w) = (tasks w)(t \<mapsto> tk)" "trace (setTask t tk w) = trace w"
  "now (setTask t tk w) = now w" "manager (setTask t tk w) = manager w"
  by (simp_all add: setTask_def)

lemma untouched_refl [simp]: "untouched t w w"
  by (simp add: untouched_def)

lemma untouched_attemptFailed: "untouched t w (snd (attemptFailed i e w))"
  by (simp add: attemptFailed_def)

lemma untouched_createAttempt: "t' \<noteq> t \<Longrightarrow> untouched t w (snd (createAttempt t' config i w))"
  by (simp add: createAttempt_def attemptFailed_def untouched_def)

lemma untouched_rateLimit: "t' \<noteq> t \<Longrightarrow> untouched t w (snd (rateLimit t' config w))"
  using untouched_createAttempt [of t' t w config 0]
  by (simp add: rateLimit_def Let_def)

lemma untouched_rateLimit':
  "t' \<noteq> t \<Longrightarrow> untouched t w w1 \<Longrightarrow> untouched t w (snd (rateLimit t' config w1))"
  using untouched_rateLimit [of t' t w1 config] by (simp add: untouched_def)

lemma untouched_destroyOldestSession:
  "t' \<noteq> t \<Longrightarrow> untouched t w (snd (destroyOldestSession t' config w))"
  using untouched_rateLimit [of t' t w config]
  by (simp add: destroyOldestSession_def split: option.splits)

lemma untouched_enforceLimit: "t' \<noteq> t \<Longrightarrow> untouched t w (snd (enforceLimit t' config w))"
  using untouched_rateLimit [of t' t w config] untouched_destroyOldestSession [of t' t w config]
  by (simp add: enforceLimit_def)

lemma untouched_cleanupLoop: "t' \<noteq> t \<Longrightarrow> untouched t w (snd (cleanupLoop t' config ks w))"
  using untouched_enforceLimit [of t' t w config]
  by (simp add: cleanupLoop_def split: list.splits)

lemma untouched_getSession: "t' \<noteq> t \<Longrightarrow> untouched t w (snd (getSession t' config w))"
  using untouched_cleanupLoop [of t' t w config]
  by (simp add: getSession_def cleanup_def Let_def untouched_def split: option.splits)

lemma untouched_trans: "untouched t w w1 \<Longrightarrow> untouched t w1 w2 \<Longrightarrow> untouched t w w2"
  by (simp add: untouched_def)

lemma untouched_resumeGetSession:
  assumes "t' \<noteq> t"
  shows "untouched t w (snd (resumeGetSession t' config pc r w))"
proof (cases pc)
  case CleanupReturned
  then show ?thesis using untouched_enforceLimit [OF assms] by simp
next
  case (CleanupWait due cap key rest)
  have a: "untouched t w (deleteKey key (destroyCaptured t' cap w))"
    using assms by (simp add: untouched_def)
  show ?thesis
    using untouched_trans [OF a untouched_cleanupLoop [OF assms]] CleanupWait by simp
next
  case (DestroyOldestWait due cap key)
  have a: "untouched t w (deleteKey key (destroyCaptured t' cap w))"
    using assms by (simp add: untouched_def)
  show ?thesis
    using untouched_trans [OF a untouched_rateLimit [OF assms]] DestroyOldestWait by simp
next
  case (RateLimitWait due)
  then show ?thesis using untouched_createAttempt [OF assms] by simp
next
  case (AvailabilityWait i)
  then show ?thesis using assms
    by (cases r) (simp_all add: attemptFailed_def untouched_def)
next
  case (CreateWait i)
  then show ?thesis using assms
    by (cases r) (simp_all add: attemptFailed_def untouched_def)
next
  case (RetryWait due i)
  then show ?thesis using untouched_createAttempt [OF assms] by simp
qed

lemma untouched_caught [simp]: "untouched t w (snd (caught e w))"
  by (simp add: caught_def)

lemma untouched_afterLoop: "t' \<noteq> t \<Longrightarrow> untouched t w (snd (afterLoop t' args sig h sums w))"
  by (simp add: afterLoop_def Let_def caught_def untouched_def)

lemma untouched_chunkLoop: "t' \<noteq> t \<Longrightarrow> untouched t w (snd (chunkLoop t' args sig h cs i sums w))"
  using untouched_afterLoop [of t' t w args sig h sums]
  by (simp add: chunkLoop_def caught_def untouched_def)

lemma untouched_afterAcquire: "t' \<noteq> t \<Longrightarrow> untouched t w (snd (afterAcquire t' args sig h w))"
  using untouched_chunkLoop [of t' t w args sig h _ 0 "[]"]
  by (simp add: afterAcquire_def Let_def caught_def untouched_def split: option.splits)

lemma untouched_afterGetSession:
  "t' \<noteq> t \<Longrightarrow> untouched t w (snd stw) \<Longrightarrow> untouched t w (snd (afterGetSession t' args sig stw))"
  using untouched_afterAcquire [of t' t "snd stw" args sig]
  by (auto simp: afterGetSession_def caught_def untouched_def split: gs_status.splits)

lemma untouched_simplifyArticle:
  assumes "t' \<noteq> t"
  shows "untouched t w (snd (simplifyArticle t' args sig w))"
proof -
  have "untouched t w (snd (getSession t' (summarizerConfig args) w))"
    by (rule untouched_getSession [OF assms])
  from untouched_afterGetSession [OF assms this] this show ?thesis
    by (simp add: simplifyArticle_def split: gs_status.splits)
qed

lemma untouched_resumeSimplify:
  assumes "t' \<noteq> t"
  shows "untouched t w (snd (resumeSimplify t' args sig pc r w))"
proof (cases pc)
  case (Acquiring gpc)
  then show ?thesis
    using untouched_afterGetSession [OF assms untouched_resumeGetSession [OF assms]] by simp
next
  case (SessionReturned h)
  then show ?thesis using untouched_afterAcquire [OF assms] by simp
next
  case (ChunkWait h cs i sums)
  then show ?thesis using untouched_chunkLoop [OF assms]
    by (cases r) simp_all
next
  case (ChunkPause due h cs i sums)
  then show ?thesis using untouched_chunkLoop [OF assms] by simp
next
  case (FinalWait h)
  then show ?thesis by (cases r) simp_all
next
  case (SingleWait h)
  then show ?thesis by (cases r) simp_all
qed

lemma untouched_destroyAllLoop: "untouched t w (snd (destroyAllLoop ks w))"
  by (simp add: destroyAllLoop_def untouched_def split: list.splits)

lemma untouched_destroySession: "untouched t w (snd (destroySession config w))"
  by (simp add: destroySession_def split: option.splits)

lemma untouched_resumeDestroy:
  assumes "t' \<noteq> t"
  shows "untouched t w (snd (resumeDestroy t' pc r w))"
proof (cases pc)
  case (DestroyAllWait due cap rest)
  have a: "untouched t w (destroyCaptured t' cap w)"
    using assms by (simp add: untouched_def)
  show ?thesis using untouched_trans [OF a untouched_destroyAllLoop] DestroyAllWait by simp
next
  case (DestroySessionWait due h key)
  then show ?thesis using assms by (simp add: untouched_def)
qed

text \<open>
  A call that has settled or awaits its last host call stays so, whatever happens next,
  and makes no further host call.
\<close>

lemma step_other_task:
  assumes "settledOrLastCall w t"
  shows "settledOrLastCall (step e w) t \<and> callsBy t (trace (step e w)) = callsBy t (trace w) \<and>
         (\<forall>x. tasks w t = Some (Done x) \<longrightarrow> tasks (step e w) t = Some (Done x))"
proof (cases e)
  case (Tick d)
  then show ?thesis using assms by (simp add: settledOrLastCall_def)
next
  case (CallGetSession t' config)
  show ?thesis
  proof (cases "tasks w t' = None")
    case True
    then have ne: "t' \<noteq> t" using assms by (auto simp: settledOrLastCall_def)
    from untouched_getSession [OF ne, of w config] True ne assms CallGetSession
    show ?thesis by (auto simp: untouched_def settledOrLastCall_def)
  next
    case False
    then show ?thesis using assms CallGetSession by auto
  qed
next
  case (CallSimplifyArticle t' args sig)
  show ?thesis
  proof (cases "tasks w t' = None")
    case True
    then have ne: "t' \<noteq> t" using assms by (auto simp: settledOrLastCall_def)
    from untouched_simplifyArticle [OF ne, of w args sig] True ne assms CallSimplifyArticle
    show ?thesis by (auto simp: untouched_def settledOrLastCall_def)
  next
    case False
    then show ?thesis using assms CallSimplifyArticle by auto
  qed
next
  case (CallDestroyAll t')
  show ?thesis
  proof (cases "tasks w t' = None")
    case True
    then have ne: "t' \<noteq> t" using assms by (auto simp: settledOrLastCall_def)
    from untouched_destroyAllLoop [of t w "map fst (sessions (manager w))"] True ne assms CallDestroyAll
    show ?thesis by (auto simp: untouched_def settledOrLastCall_def destroyAll_def)
  next
    case False
    then show ?thesis using assms CallDestroyAll by auto
  qed
next
  case (CallDestroySession t' config)
  show ?thesis
  proof (cases "tasks w t' = None")
    case True
    then have ne: "t' \<noteq> t" using assms by (auto simp: settledOrLastCall_def)
    from untouched_destroySession [of t w config] True ne assms CallDestroySession
    show ?thesis by (auto simp: untouched_def settledOrLastCall_def)
  next
    case False
    then show ?thesis using assms CallDestroySession by auto
  qed
next
  case (Resume t' r)
  show ?thesis
  proof (cases "t' = t")
    case True
    from assms obtain x args sig h where
      "tasks w t = Some (Done x) \<or> tasks w t = Some (SimplifyTask args sig (FinalWait h))
        \<or> tasks w t = Some (SimplifyTask args sig (SingleWait h))"
      by (auto simp: settledOrLastCall_def split: option.splits task.splits sa_pc.splits)
    then show ?thesis using True Resume
      by (cases r) (auto simp: settledOrLastCall_def caught_def)
  next
    case False
    show ?thesis
    proof (cases "tasks w t'")
      case None
      then show ?thesis using assms Resume by simp
    next
      case (Some tk)
      show ?thesis
      proof (cases tk)
        case (GetSessionTask config pc)
        from untouched_resumeGetSession [OF False, of w config pc r] Some GetSessionTask Resume False assms
        show ?thesis by (auto simp: untouched_def settledOrLastCall_def)
      next
        case (SimplifyTask args sig pc)
        from untouched_resumeSimplify [OF False, of w args sig pc r] Some SimplifyTask Resume False assms
        show ?thesis by (auto simp: untouched_def settledOrLastCall_def)
      next
        case (DestroyTask pc)
        from untouched_resumeDestroy [OF False, of w pc r] Some DestroyTask Resume False assms
        show ?thesis by (auto simp: untouched_def settledOrLastCall_def)
      next
        case (Done x)
        then show ?thesis using assms Resume Some by simp
      next
        case Diverged
        then show ?thesis using assms Resume Some by simp
      qed
    qed
  qed
next
  case (Abort t')
  show ?thesis using assms Abort
    by (auto simp: settledOrLastCall_def split: option.splits task.splits sa_pc.splits)
qed

lemma run_settled:
  "settledOrLastCall w t \<Longrightarrow>
     settledOrLastCall (run evs w) t \<and> callsBy t (trace (run evs w)) = callsBy t (trace w) \<and>
     (\<forall>x. tasks w t = Some (Done x) \<longrightarrow> tasks (run evs w) t = Some (Done x))"
proof (induction evs arbitrary: w)
  case Nil
  then show ?case by (simp add: run_def)
next
  case (Cons e evs)
  from step_other_task [OF Cons.prems, of e] Cons.IH [of "step e w"]
  show ?case by (simp add: run_def)
qed

lemma settled_Done: "tasks w t = Some (Done x) \<Longrightarrow> settledOrLastCall w t"
  by (simp add: settledOrLastCall_def)

section \<open>Evaluating the examples\<close>

lemma split_two_chunks:
  "splitIntoChunks (replicate 16001 0x61) (Some \<lparr>maxChunkSize = Some 16000, overlap = Some 200\<rparr>)
     = Some [replicate 16000 0x61, replicate 201 0x61]"
proof -
  have s0: "splitStep (replicate 16001 0x61) 16000 200 0 = (replicate 16000 0x61, 15800)"
    by (simp add: splitStep_def substring_def Let_def breakPoint_replicate letter_a)
  have s1: "splitStep (replicate 16001 0x61) 16000 200 15800 = (replicate 201 0x61, 16001)"
    by (simp add: splitStep_def substring_def Let_def)
  have "splitLoop (replicate 16001 0x61) 16000 200 0 [] =
        splitLoop (replicate 16001 0x61) 16000 200 15800 [replicate 16000 0x61]"
    by (subst splitLoop.simps) (simp add: s0 trim_replicate letter_a)
  also have "\<dots> = splitLoop (replicate 16001 0x61) 16000 200 16001 [replicate 16000 0x61, replicate 201 0x61]"
    by (subst splitLoop.simps) (simp add: s1 trim_replicate letter_a)
  also have "\<dots> = Some [replicate 16000 0x61, replicate 201 0x61]"
    by (subst splitLoop.simps) simp
  finally show ?thesis
    by (simp add: splitIntoChunks_def optMaxSize_def optOverlap_def Let_def)
qed

lemma split_five_chunks:
  "splitIntoChunks (replicate 70000 0x61) (Some \<lparr>maxChunkSize = Some 16000, overlap = Some 200\<rparr>)
     = Some [replicate 16000 0x61, replicate 16000 0x61, replicate 16000 0x61,
             replicate 16000 0x61, replicate 6800 0x61]"
proof -
  have s: "splitStep (replicate 70000 0x61) 16000 200 0 = (replicate 16000 0x61, 15800)"
    "splitStep (replicate 70000 0x61) 16000 200 15800 = (replicate 16000 0x61, 31600)"
    "splitStep (replicate 70000 0x61) 16000 200 31600 = (replicate 16000 0x61, 47400)"
    "splitStep (replicate 70000 0x61) 16000 200 47400 = (replicate 16000 0x61, 63200)"
    "splitStep (replicate 70000 0x61) 16000 200 63200 = (replicate 6800 0x61, 70000)"
    by (simp_all add: splitStep_def substring_def Let_def breakPoint_replicate letter_a)
  have "splitLoop (replicate 70000 0x61) 16000 200 0 [] =
        splitLoop (replicate 70000 0x61) 16000 200 15800 [replicate 16000 0x61]"
    by (subst splitLoop.simps) (simp add: s trim_replicate letter_a)
  also have "\<dots> = splitLoop (replicate 70000 0x61) 16000 200 31600
        [replicate 16000 0x61, replicate 16000 0x61]"
    by (subst splitLoop.simps) (simp add: s trim_replicate letter_a)
  also have "\<dots> = splitLoop (replicate 70000 0x61) 16000 200 47400
        [replicate 16000 0x61, replicate 16000 0x61, replicate 16000 0x61]"
    by (subst splitLoop.simps) (simp add: s trim_replicate letter_a)
  also have "\<dots> = splitLoop (replicate 70000 0x61) 16000 200 63200
        [replicate 16000 0x61, replicate 16000 0x61, replicate 16000 0x61, replicate 16000 0x61]"
    by (subst splitLoop.simps) (simp add: s trim_replicate letter_a)
  also have "\<dots> = splitLoop (replicate 70000 0x61) 16000 200 70000
        [replicate 16000 0x61, replicate 16000 0x61, replicate 16000 0x61, replicate 16000 0x61,
         replicate 6800 0x61]"
    by (subst splitLoop.simps) (simp add: s trim_replicate letter_a)
  also have "\<dots> = Some [replicate 16000 0x61, replicate 16000 0x61, replicate 16000 0x61,
        replicate 16000 0x61, replicate 6800 0x61]"
    by (subst splitLoop.simps) simp
  finally show ?thesis
    by (simp add: splitIntoChunks_def optMaxSize_def optOverlap_def Let_def)
qed

lemmas model_defs =
  run_def initialWorld_def simplifyArticle_def afterGetSession_def getSession_def cleanup_def
  expiredKeys_def cleanupLoop_def enforceLimit_def destroyOldestSession_def capture_def
  deleteKey_def destroyCaptured_def setSessions_def rateLimit_def createAttempt_def
  attemptFailed_def RETRIES_def MAX_SESSIONS_def MIN_CREATION_INTERVAL_def SESSION_TIMEOUT_def
  aborted_def summarizerConfig_def afterAcquire_def chunkLoop_def afterLoop_def caught_def
  estimateTokens_def MAX_INPUT_TOKENS_def CHARS_PER_TOKEN_def storeSession_def gsTask_def
  destroyAll_def destroyAllLoop_def destroySession_def setTask_def emit_def Let_def

lemmas key_defs =
  sessionKey_def typeName_def summarizerOptions_def getLengthForLevel_def lengthName_def js_def

section \<open>The session manager under concurrent calls\<close>

text \<open>
  Claim C1 says that any two host create calls are at least \<open>MIN_CREATION_INTERVAL\<close>
  (1000 ms) apart, also for concurrent calls of \<open>getSession\<close>. In the source the rate
  limit compares with \<open>lastCreationTime\<close>, which is written only when a creation has
  completed, and nothing orders the calls. Two calls for different configs that arrive
  together on an empty pool both pass the check; their create calls are 3 ms apart.
\<close>

theorem concurrent_creates_not_spaced:
  "createTimes (trace (run twoConcurrentCalls (initialWorld startTime))) =
     [startTime + 5, startTime + 8] \<and>
   (startTime + 8) - (startTime + 5) < MIN_CREATION_INTERVAL"
  by (simp add: twoConcurrentCalls_def configA_def configB_def startTime_def createTimes_def
      model_defs key_defs)

text \<open>
  For contrast: a call that arrives 5 ms after a creation has completed does wait, until
  1000 ms after that completion.
\<close>

lemma call_after_completed_creation_waits:
  "tasks (run (createdOnce @ [Tick 5, CallGetSession 2 configB, Resume 2 Microtask])
      (initialWorld startTime)) 2 =
     Some (GetSessionTask configB (RateLimitWait (startTime + 1010)))"
  by (simp add: createdOnce_def configA_def configB_def startTime_def model_defs key_defs)

text \<open>
  Claim C2 says that the pool never holds more than \<open>MAX_SESSIONS\<close> (3) sessions and that
  session 4 is created only after an eviction. Four concurrent calls for four configs
  all see an empty pool at their capacity check; all four sessions are stored and no
  session is destroyed.
\<close>

theorem concurrent_calls_exceed_max_sessions:
  "map (\<lambda>(key, s). session s) (sessions (manager (run fourConcurrentCalls (initialWorld startTime)))) =
     [11, 12, 13, 14] \<and>
   MAX_SESSIONS < length (sessions (manager (run fourConcurrentCalls (initialWorld startTime)))) \<and>
   filter (\<lambda>(tm, t, c). case c of DestroyCall h \<Rightarrow> True | _ \<Rightarrow> False)
     (trace (run fourConcurrentCalls (initialWorld startTime))) = []"
  by (simp add: fourConcurrentCalls_def configA_def configB_def configC_def configD_def
      startTime_def model_defs key_defs)

text \<open>
  Claim C4 says that pool mutations go through one queue, so that a later call of
  \<open>getSession\<close> starts its accounting only after the effects of an earlier one. In the
  source nothing is queued. A second call that arrives while the create call of the
  first is pending runs its capacity and rate checks at once, against a pool without
  the first session and a \<open>lastCreationTime\<close> that is still 0, and goes on to the
  availability probe; its own create call follows 105 ms after the first.
\<close>

theorem second_call_does_not_wait_for_first:
  "tasks (run secondCallDuringCreate (initialWorld startTime)) 1 =
     Some (GetSessionTask configA (CreateWait 0)) \<and>
   tasks (run secondCallDuringCreate (initialWorld startTime)) 2 =
     Some (GetSessionTask configB (AvailabilityWait 0)) \<and>
   sessions (manager (run secondCallDuringCreate (initialWorld startTime))) = [] \<and>
   lastCreationTime (manager (run secondCallDuringCreate (initialWorld startTime))) = 0 \<and>
   createTimes (trace (run (secondCallDuringCreate @ [Tick 5, Resume 2 (AvailabilityResolved available)])
      (initialWorld startTime))) = [startTime + 5, startTime + 110]"
  by (simp add: secondCallDuringCreate_def configA_def configB_def startTime_def createTimes_def
      model_defs key_defs)

section \<open>Reuse of a pooled session\<close>

text \<open>
  Claim C5 says that a sequence of calls with the same config makes at most one host
  create call. The creating call retries a failed creation: here the first create call
  is rejected, the second succeeds, and the next call with the same config reuses the
  session. Two host create calls were made.
\<close>

theorem retry_makes_second_create_call:
  "createTimes (trace (run retriedThenReused (initialWorld startTime))) =
     [startTime, startTime + 2010] \<and>
   tasks (run retriedThenReused (initialWorld startTime)) 1 = Some (Done (Fulfilled (SessionValue 7))) \<and>
   tasks (run retriedThenReused (initialWorld startTime)) 2 = Some (Done (Fulfilled (SessionValue 7)))"
  by (simp add: retriedThenReused_def configA_def startTime_def createTimes_def model_defs key_defs)

lemma getSession_hit:
  assumes "map_of (sessions (manager w)) (sessionKey config) = Some m"
    and "tasks w t = None"
  shows "step (CallGetSession t config) w =
           setTask t (Done (Fulfilled (SessionValue (session m))))
             (setSessions (AList.update (sessionKey config)
                (m\<lparr>lastUsedAt := now w, useCount := useCount m + 1\<rparr>) (sessions (manager w))) w)"
  using assms by (simp add: getSession_def gsTask_def)

lemma reuse_run:
  assumes "\<forall>e\<in>set evs. (\<exists>d. e = Tick d) \<or> (\<exists>t. e = CallGetSession t config)"
    and "map_of (sessions (manager w)) (sessionKey config) = Some m"
  shows "trace (run evs w) = trace w \<and>
         (\<exists>m'. map_of (sessions (manager (run evs w))) (sessionKey config) = Some m' \<and>
               session m' = session m) \<and>
         (\<forall>t. tasks w t = None \<and> CallGetSession t config \<in> set evs \<longrightarrow>
              tasks (run evs w) t = Some (Done (Fulfilled (SessionValue (session m)))))"
  using assms
proof (induction evs arbitrary: w m)
  case Nil
  then show ?case by (simp add: run_def)
next
  case (Cons e evs)
  have rest: "\<forall>e\<in>set evs. (\<exists>d. e = Tick d) \<or> (\<exists>t. e = CallGetSession t config)"
    using Cons.prems(1) by simp
  have r: "run (e # evs) w = run evs (step e w)" by (simp add: run_def)
  from Cons.prems(1) consider (tick) d where "e = Tick d" | (call) t' where "e = CallGetSession t' config"
    by auto
  then show ?case
  proof cases
    case tick
    have m1: "map_of (sessions (manager (step e w))) (sessionKey config) = Some m"
      using Cons.prems(2) tick by simp
    from Cons.IH [OF rest m1] show ?thesis unfolding r using tick by simp
  next
    case call
    show ?thesis
    proof (cases "tasks w t'")
      case (Some tk)
      then have same: "step e w = w" using call by simp
      have ne: "\<And>t. tasks w t = None \<Longrightarrow> t \<noteq> t'" using Some by auto
      have r': "run (e # evs) w = run evs w" using r same by simp
      have "\<And>t. tasks w t = None \<Longrightarrow> CallGetSession t config \<in> set (e # evs) \<Longrightarrow>
              CallGetSession t config \<in> set evs"
        using ne call by auto
      then show ?thesis using Cons.IH [OF rest Cons.prems(2)] unfolding r' by blast
    next
      case None
      let ?m1 = "m\<lparr>lastUsedAt := now w, useCount := useCount m + 1\<rparr>"
      let ?w1 = "step e w"
      have w1: "?w1 = setTask t' (Done (Fulfilled (SessionValue (session m))))
             (setSessions (AList.update (sessionKey config) ?m1 (sessions (manager w))) w)"
        using getSession_hit [OF Cons.prems(2) None] call by simp
      have m1: "map_of (sessions (manager ?w1)) (sessionKey config) = Some ?m1"
        unfolding w1 by (simp add: AList.update_conv')
      have tr: "trace ?w1 = trace w" unfolding w1 by simp
      have tk: "tasks ?w1 = (tasks w)(t' \<mapsto> Done (Fulfilled (SessionValue (session m))))"
        unfolding w1 by simp
      note IH = Cons.IH [OF rest m1]
      have a: "trace (run evs ?w1) = trace w" using IH tr by simp
      have b: "\<exists>m'. map_of (sessions (manager (run evs ?w1))) (sessionKey config) = Some m' \<and>
               session m' = session m" using IH by simp
      have c: "tasks (run evs ?w1) t = Some (Done (Fulfilled (SessionValue (session m))))"
        if "tasks w t = None" "CallGetSession t config \<in> set (e # evs)" for t
      proof (cases "t = t'")
        case True
        have "tasks ?w1 t = Some (Done (Fulfilled (SessionValue (session m))))"
          using tk True by simp
        from run_settled [OF settled_Done [OF this]] this show ?thesis by simp
      next
        case False
        then have "tasks ?w1 t = None" "CallGetSession t config \<in> set evs"
          using that tk call by auto
        then show ?thesis using IH by simp
      qed
      show ?thesis unfolding r using a b c by blast
    qed
  qed
qed

text \<open>
  Claim C5, amended. Once the pool holds a session for a config (an earlier call has
  succeeded), a call with that config finds it, sets \<open>lastUsedAt\<close>, increments
  \<open>useCount\<close> and returns its handle at once; and through any sequence of such calls,
  however much time passes between them, no host call is made and every call returns
  that handle.
\<close>

theorem pooled_session_reused:
  assumes "map_of (sessions (manager w)) (sessionKey config) = Some m"
    and "\<forall>e\<in>set evs. (\<exists>d. e = Tick d) \<or> (\<exists>t. e = CallGetSession t config)"
  shows "(\<forall>t. tasks w t = None \<longrightarrow>
            step (CallGetSession t config) w =
              setTask t (Done (Fulfilled (SessionValue (session m))))
                (setSessions (AList.update (sessionKey config)
                   (m\<lparr>lastUsedAt := now w, useCount := useCount m + 1\<rparr>) (sessions (manager w))) w)) \<and>
         trace (run evs w) = trace w \<and>
         (\<exists>m'. map_of (sessions (manager (run evs w))) (sessionKey config) = Some m' \<and>
               session m' = session m) \<and>
         (\<forall>t. tasks w t = None \<and> CallGetSession t config \<in> set evs \<longrightarrow>
              tasks (run evs w) t = Some (Done (Fulfilled (SessionValue (session m)))))"
  using getSession_hit [OF assms(1)] reuse_run [OF assms(2,1)] by blast

text \<open>
  After one successful creation, two more calls with the same config, the second ten
  minutes later (twice the idle timeout): no host call, the same session.
\<close>

lemma createdOnce_state:
  "map_of (sessions (manager (run createdOnce (initialWorld startTime)))) (sessionKey configA) =
     Some \<lparr>session = 7, stype = summarizer, createdAt = startTime + 10,
            lastUsedAt = startTime + 10, useCount = 1\<rparr>"
  "tasks (run createdOnce (initialWorld startTime)) 2 = None"
  "tasks (run createdOnce (initialWorld startTime)) 3 = None"
  by (simp_all add: createdOnce_def configA_def startTime_def model_defs key_defs)

theorem pooled_session_reused_witness:
  "trace (run [Tick 5, CallGetSession 2 configA, Tick 600000, CallGetSession 3 configA]
            (run createdOnce (initialWorld startTime))) =
     trace (run createdOnce (initialWorld startTime)) \<and>
   tasks (run [Tick 5, CallGetSession 2 configA, Tick 600000, CallGetSession 3 configA]
            (run createdOnce (initialWorld startTime))) 2 = Some (Done (Fulfilled (SessionValue 7))) \<and>
   tasks (run [Tick 5, CallGetSession 2 configA, Tick 600000, CallGetSession 3 configA]
            (run createdOnce (initialWorld startTime))) 3 = Some (Done (Fulfilled (SessionValue 7)))"
proof -
  have evs: "\<forall>e\<in>set [Tick 5, CallGetSession 2 configA, Tick 600000, CallGetSession 3 configA].
               (\<exists>d. e = Tick d) \<or> (\<exists>t. e = CallGetSession t configA)"
    by simp
  from pooled_session_reused [OF createdOnce_state(1) evs] createdOnce_state(2,3)
  show ?thesis by simp
qed

section \<open>The final pass and cancellation in \<open>simplifyArticle\<close>\<close>

lemma friendlyError_cancelled:
  "friendlyError cancelled = Error (js ''Simplification was cancelled'')"
  by code_simp

text \<open>
  Claim C6. When the summary of the last chunk arrives and the summaries, joined with
  a blank line, still exceed the limit (and the signal is not aborted), exactly one
  further host call is made: on the same session, with the whole combined summary.
  Its result settles the call whatever its size, and the call never makes another host
  call, however the run continues.
\<close>

theorem final_pass_once:
  assumes "tasks w t = Some (SimplifyTask args sig (ChunkWait h chunks i summaries))"
    and "Suc i = length chunks"
    and "\<not> aborted sig"
    and "MAX_INPUT_TOKENS < estimateTokens (joinWith [chNewline, chNewline] (summaries @ [summary]))"
  shows "trace (step (Resume t (Summarized summary)) w) =
           trace w @ [(now w, t, SummarizeCall h (joinWith [chNewline, chNewline] (summaries @ [summary])))] \<and>
         tasks (step (Resume t (Summarized summary)) w) t = Some (SimplifyTask args sig (FinalWait h)) \<and>
         (\<forall>evs. callsBy t (trace (run evs (step (Resume t (Summarized summary)) w))) =
            callsBy t (trace w) @ [SummarizeCall h (joinWith [chNewline, chNewline] (summaries @ [summary]))]) \<and>
         (\<forall>r. tasks (step (Resume t (Summarized r)) (step (Resume t (Summarized summary)) w)) t =
            Some (Done (Fulfilled (TextValue r))))"
proof -
  let ?w' = "step (Resume t (Summarized summary)) w"
  let ?c = "joinWith [chNewline, chNewline] (summaries @ [summary])"
  have rs: "resumeSimplify t args sig (ChunkWait h chunks i summaries) (Summarized summary) w =
          (SimplifyTask args sig (FinalWait h), emit t (SummarizeCall h ?c) w)"
    using assms(2,3,4) by (simp add: chunkLoop_def afterLoop_def Let_def)
  have tr: "trace ?w' = trace w @ [(now w, t, SummarizeCall h ?c)]"
    using assms(1) rs by simp
  have tk: "tasks ?w' t = Some (SimplifyTask args sig (FinalWait h))"
    using assms(1) rs by simp
  have "settledOrLastCall ?w' t" using tk by (simp add: settledOrLastCall_def)
  from run_settled [OF this] tr
  have ev: "\<forall>evs. callsBy t (trace (run evs ?w')) = callsBy t (trace w) @ [SummarizeCall h ?c]"
    by simp
  have fin: "\<forall>r. tasks (step (Resume t (Summarized r)) ?w') t = Some (Done (Fulfilled (TextValue r)))"
    using tk by simp
  show ?thesis using tr tk ev fin by blast
qed

text \<open>
  The long article: both chunk summaries have 8000 letters, so the combined summary has
  16002 code units and is summarized once more, in one call on the same session.
\<close>

lemma secondChunk_state:
  "tasks (run secondChunkInFlight (initialWorld startTime)) 1 =
     Some (SimplifyTask longArticle (Some False)
            (ChunkWait 11 [replicate 16000 0x61, replicate 201 0x61] 1 [longSummary]))"
  "now (run secondChunkInFlight (initialWorld startTime)) = startTime + 1450"
  "callsBy 1 (trace (run secondChunkInFlight (initialWorld startTime))) =
     [AvailabilityCall summarizer, CreateCall summarizer,
      SummarizeCall 11 (replicate 16000 0x61), SummarizeCall 11 (replicate 201 0x61)]"
  by (simp_all add: secondChunkInFlight_def longArticle_def model_defs split_two_chunks
      startTime_def callsBy_def)

theorem final_pass_once_witness:
  "trace (step (Resume 1 (Summarized longSummary)) (run secondChunkInFlight (initialWorld startTime))) =
     trace (run secondChunkInFlight (initialWorld startTime)) @
       [(startTime + 1450, 1, SummarizeCall 11 (longSummary @ [chNewline, chNewline] @ longSummary))] \<and>
   tasks (step (Resume 1 (Summarized longSummary)) (run secondChunkInFlight (initialWorld startTime))) 1 =
     Some (SimplifyTask longArticle (Some False) (FinalWait 11)) \<and>
   (\<forall>evs. callsBy 1 (trace (run evs (step (Resume 1 (Summarized longSummary))
              (run secondChunkInFlight (initialWorld startTime))))) =
      [AvailabilityCall summarizer, CreateCall summarizer,
       SummarizeCall 11 (replicate 16000 0x61), SummarizeCall 11 (replicate 201 0x61),
       SummarizeCall 11 (longSummary @ [chNewline, chNewline] @ longSummary)])"
proof -
  have last: "Suc 1 = length [replicate 16000 (0x61 :: jschar), replicate 201 0x61]" by simp
  have sig: "\<not> aborted (Some False)" by (simp add: aborted_def)
  have big: "MAX_INPUT_TOKENS < estimateTokens (joinWith [chNewline, chNewline] ([longSummary] @ [longSummary]))"
    by (simp add: MAX_INPUT_TOKENS_def estimateTokens_def longSummary_def)
  from final_pass_once [OF secondChunk_state(1) last sig big] secondChunk_state(2,3)
  show ?thesis by simp
qed

text \<open>
  Claim C9. With the signal aborted, each check rejects without a host call: the check
  at the call (before \<open>getSession\<close>), the check after \<open>getSession\<close>, the check at the
  head of the loop before every chunk \<open>k\<close>, and the check before the final pass. When the
  signal is set (\<open>abort()\<close>) the suspended call is left as it is; when the pause before
  chunk \<open>k\<close> then ends, the call settles with the cancellation error, nothing else
  changes, and in every continuation of the run it makes no further host call, so the
  chunks from \<open>k\<close> on are never sent.
\<close>

theorem cancellation_checks:
  "simplifyArticle t args (Some True) w = (Done (RejectedWith (Error (js ''Operation cancelled''))), w) \<and>
   afterAcquire t args (Some True) h w =
     (Done (RejectedWith (Error (js ''Simplification was cancelled''))), w) \<and>
   (k < length chunks \<longrightarrow>
      chunkLoop t args (Some True) h chunks k summaries w =
        (Done (RejectedWith (Error (js ''Simplification was cancelled''))), w)) \<and>
   (MAX_INPUT_TOKENS < estimateTokens (joinWith [chNewline, chNewline] summaries) \<longrightarrow>
      afterLoop t args (Some True) h summaries w =
        (Done (RejectedWith (Error (js ''Simplification was cancelled''))), w)) \<and>
   (tasks w t = Some (SimplifyTask args (Some b) pc) \<longrightarrow>
      step (Abort t) w = setTask t (SimplifyTask args (Some True) pc) w) \<and>
   (tasks w t = Some (SimplifyTask args (Some True) (ChunkPause due h chunks i summaries)) \<and>
    due \<le> now w \<and> Suc i < length chunks \<longrightarrow>
      step (Resume t TimerFired) w =
        setTask t (Done (RejectedWith (Error (js ''Simplification was cancelled'')))) w \<and>
      (\<forall>evs. callsBy t (trace (run evs (step (Resume t TimerFired) w))) = callsBy t (trace w))) \<and>
   (tasks w t = Some (Done x) \<longrightarrow>
      (\<forall>evs. tasks (run evs w) t = Some (Done x) \<and> callsBy t (trace (run evs w)) = callsBy t (trace w)))"
proof -
  have 1: "simplifyArticle t args (Some True) w = (Done (RejectedWith (Error (js ''Operation cancelled''))), w)"
    by (simp add: simplifyArticle_def aborted_def cancelled_def)
  have 2: "afterAcquire t args (Some True) h w =
     (Done (RejectedWith (Error (js ''Simplification was cancelled''))), w)"
    by (simp add: afterAcquire_def aborted_def caught_def friendlyError_cancelled)
  have 3: "chunkLoop t args (Some True) h chunks k summaries w =
        (Done (RejectedWith (Error (js ''Simplification was cancelled''))), w)" if "k < length chunks" for k summaries
    using that by (simp add: chunkLoop_def aborted_def caught_def friendlyError_cancelled)
  have 4: "afterLoop t args (Some True) h summaries w =
        (Done (RejectedWith (Error (js ''Simplification was cancelled''))), w)"
    if "MAX_INPUT_TOKENS < estimateTokens (joinWith [chNewline, chNewline] summaries)"
    using that by (simp add: afterLoop_def Let_def aborted_def caught_def friendlyError_cancelled)
  have 5: "step (Resume t TimerFired) w =
        setTask t (Done (RejectedWith (Error (js ''Simplification was cancelled'')))) w \<and>
      (\<forall>evs. callsBy t (trace (run evs (step (Resume t TimerFired) w))) = callsBy t (trace w))"
    if a: "tasks w t = Some (SimplifyTask args (Some True) (ChunkPause due h chunks i summaries))"
      "due \<le> now w" "Suc i < length chunks"
  proof -
    let ?d = "Done (RejectedWith (Error (js ''Simplification was cancelled'')))"
    have st: "step (Resume t TimerFired) w = setTask t ?d w"
      using a 3 [of "i + 1" summaries] by simp
    have "tasks (setTask t ?d w) t = Some ?d" by simp
    from run_settled [OF settled_Done [OF this]]
    have "\<forall>evs. callsBy t (trace (run evs (setTask t ?d w))) = callsBy t (trace w)" by simp
    then show ?thesis using st by simp
  qed
  have 7: "step (Abort t) w = setTask t (SimplifyTask args (Some True) pc) w"
    if "tasks w t = Some (SimplifyTask args (Some b) pc)"
    using that by simp
  have 6: "\<forall>evs. tasks (run evs w) t = Some (Done x) \<and> callsBy t (trace (run evs w)) = callsBy t (trace w)"
    if "tasks w t = Some (Done x)"
    using run_settled [OF settled_Done [OF that]] that by simp
  show ?thesis using 1 2 3 4 5 6 7 by blast
qed

text \<open>
  Five chunks, the signal aborted before the third: the timer that ends the pause
  settles the call with the cancellation error, and only chunks one and two were ever
  sent to the host.
\<close>

lemma aborted_state:
  "tasks (run abortedBeforeThirdChunk (initialWorld startTime)) 1 =
     Some (SimplifyTask fiveChunkArticle (Some True)
            (ChunkPause (startTime + 2850) 11 fiveChunks 1 [js ''First summary.'', js ''Second summary.'']))"
  "now (run abortedBeforeThirdChunk (initialWorld startTime)) = startTime + 2850"
  "callsBy 1 (trace (run abortedBeforeThirdChunk (initialWorld startTime))) =
     [AvailabilityCall summarizer, CreateCall summarizer,
      SummarizeCall 11 (replicate 16000 0x61), SummarizeCall 11 (replicate 16000 0x61)]"
  by (simp_all add: abortedBeforeThirdChunk_def fiveChunkArticle_def fiveChunks_def model_defs
      split_five_chunks startTime_def callsBy_def)

theorem cancellation_checks_witness:
  "simplifyArticle 1 shortArticle (Some True) (initialWorld startTime) =
     (Done (RejectedWith (Error (js ''Operation cancelled''))), initialWorld startTime) \<and>
   step (Resume 1 TimerFired) (run abortedBeforeThirdChunk (initialWorld startTime)) =
     setTask 1 (Done (RejectedWith (Error (js ''Simplification was cancelled''))))
       (run abortedBeforeThirdChunk (initialWorld startTime)) \<and>
   (\<forall>evs. callsBy 1 (trace (run evs (step (Resume 1 TimerFired)
              (run abortedBeforeThirdChunk (initialWorld startTime))))) =
      [AvailabilityCall summarizer, CreateCall summarizer,
       SummarizeCall 11 (replicate 16000 0x61), SummarizeCall 11 (replicate 16000 0x61)])"
proof -
  let ?w = "run abortedBeforeThirdChunk (initialWorld startTime)"
  note c = cancellation_checks [where t = 1 and args = shortArticle and w = "initialWorld startTime"]
  note d = cancellation_checks [where t = 1 and args = fiveChunkArticle and w = ?w
      and due = "startTime + 2850" and h = 11 and chunks = fiveChunks and i = 1
      and summaries = "[js ''First summary.'', js ''Second summary.'']"]
  have hyp: "tasks ?w 1 = Some (SimplifyTask fiveChunkArticle (Some True)
                (ChunkPause (startTime + 2850) 11 fiveChunks 1
                   [js ''First summary.'', js ''Second summary.''])) \<and>
             startTime + 2850 \<le> now ?w \<and> Suc 1 < length fiveChunks"
    using aborted_state(1,2) by (simp add: fiveChunks_def)
  from d hyp
  have "step (Resume 1 TimerFired) ?w =
          setTask 1 (Done (RejectedWith (Error (js ''Simplification was cancelled'')))) ?w \<and>
        (\<forall>evs. callsBy 1 (trace (run evs (step (Resume 1 TimerFired) ?w))) = callsBy 1 (trace ?w))"
    by blast
  moreover have "simplifyArticle 1 shortArticle (Some True) (initialWorld startTime) =
     (Done (RejectedWith (Error (js ''Operation cancelled''))), initialWorld startTime)"
    using c by blast
  ultimately show ?thesis unfolding aborted_state(3) by blast
qed

section \<open>Destruction of pooled sessions and sessions in use\<close>

text \<open>Runs, the handles destroyed in a run, and the scan for the oldest session.\<close>

lemma destroyed_append [simp]: "destroyed (xs @ ys) = destroyed xs @ destroyed ys"
  by (simp add: destroyed_def)

lemma destroyed_single [simp]:
  "destroyed [(tm, t, c)] = (case c of DestroyCall h \<Rightarrow> [h] | _ \<Rightarrow> [])"
  by (simp add: destroyed_def)

lemma quiet_refl [simp]: "quiet w w"
  by (simp add: quiet_def)

lemma quiet_createAttempt: "quiet w (snd (createAttempt t config i w))"
  by (simp add: createAttempt_def attemptFailed_def quiet_def)

lemma quiet_rateLimit: "quiet w (snd (rateLimit t config w))"
  using quiet_createAttempt [of w t config 0] by (simp add: rateLimit_def Let_def)

lemma quiet_destroyOldestSession: "quiet w (snd (destroyOldestSession t config w))"
  using quiet_rateLimit [of w t config]
  by (simp add: destroyOldestSession_def split: option.splits)

lemma quiet_enforceLimit: "quiet w (snd (enforceLimit t config w))"
  using quiet_rateLimit [of w t config] quiet_destroyOldestSession [of w t config]
  by (simp add: enforceLimit_def)

lemma oldestScan_keeps:
  "\<forall>p\<in>set post. t0 \<le> lastUsedAt (snd p) \<Longrightarrow>
     oldestScan post (Some key, Some t0) = (Some key, Some t0)"
  by (induction post) auto

lemma oldestScan_first_min_aux:
  assumes "\<forall>p\<in>set pre. lastUsedAt s < lastUsedAt (snd p)"
    and "\<forall>p\<in>set post. lastUsedAt s \<le> lastUsedAt (snd p)"
    and "ot = None \<or> (\<exists>t0. ot = Some t0 \<and> lastUsedAt s < t0)"
  shows "oldestScan (pre @ (key, s) # post) (ok, ot) = (Some key, Some (lastUsedAt s))"
  using assms
proof (induction pre arbitrary: ok ot)
  case Nil
  then show ?case using oldestScan_keeps [of post "lastUsedAt s" key] by auto
next
  case (Cons p pre)
  obtain k' s' where p: "p = (k', s')" by (cases p)
  have lt: "lastUsedAt s < lastUsedAt s'" using Cons.prems(1) p by simp
  have rest: "\<forall>p\<in>set pre. lastUsedAt s < lastUsedAt (snd p)" using Cons.prems(1) by simp
  show ?case
  proof (cases "case ot of None \<Rightarrow> True | Some t \<Rightarrow> lastUsedAt s' < t")
    case True
    have "oldestScan (pre @ (key, s) # post) (Some k', Some (lastUsedAt s')) =
            (Some key, Some (lastUsedAt s))"
      using Cons.IH [OF rest Cons.prems(2), of "Some (lastUsedAt s')" "Some k'"] lt by simp
    then show ?thesis using True p by simp
  next
    case False
    have "oldestScan (pre @ (key, s) # post) (ok, ot) = (Some key, Some (lastUsedAt s))"
      using Cons.IH [OF rest Cons.prems(2) Cons.prems(3)] .
    then show ?thesis using False p by simp
  qed
qed

lemma oldestScan_first_min:
  assumes "\<forall>p\<in>set pre. lastUsedAt s < lastUsedAt (snd p)"
    and "\<forall>p\<in>set post. lastUsedAt s \<le> lastUsedAt (snd p)"
  shows "oldestScan (pre @ (key, s) # post) (None, None) = (Some key, Some (lastUsedAt s))"
  using oldestScan_first_min_aux [OF assms, where ot = None and ok = None] by simp

lemma delete_absent: "key \<notin> fst ` set xs \<Longrightarrow> AList.delete key xs = xs"
  by (induction xs) (auto simp: AList.delete_eq)

lemma delete_middle:
  "distinct (map fst (pre @ (key, s) # post)) \<Longrightarrow> AList.delete key (pre @ (key, s) # post) = pre @ post"
  using delete_absent [of key pre] delete_absent [of key post]
  by (auto simp: AList.delete_eq)

lemma map_of_middle:
  "distinct (map fst (pre @ (key, s) # post)) \<Longrightarrow> map_of (pre @ (key, s) # post) key = Some s"
  by (rule map_of_is_SomeI) simp_all

lemma run_Cons: "run (e # evs) w = run evs (step e w)"
  by (simp add: run_def)

lemma run_append: "run (xs @ ys) w = run ys (run xs w)"
  by (simp add: run_def)

lemma run_Nil [simp]: "run [] w = w"
  by (simp add: run_def)

lemma timerTurns_Suc: "timerTurns t (Suc n) = Tick 200 # Resume t TimerFired # timerTurns t n"
  by (simp add: timerTurns_def)

lemma holds_kept:
  assumes "tasks w t = None" and "\<forall>u. u \<noteq> t \<longrightarrow> tasks w' u = tasks w u"
  shows "\<forall>u h. holdsSession w u h \<longrightarrow> holdsSession w' u h"
proof (intro allI impI)
  fix u h
  assume h: "holdsSession w u h"
  then have "u \<noteq> t" using assms(1) by (auto simp: holdsSession_def)
  then show "holdsSession w' u h" using h assms(2) by (simp add: holdsSession_def)
qed

lemma capture_simps [simp]:
  "capture key (setTask t tk w) = capture key w"
  "capture key (emit t c w) = capture key w"
  "capture key (w\<lparr>now := n\<rparr>) = capture key w"
  "capture key (w\<lparr>tasks := tks\<rparr>) = capture key w"
  by (simp_all add: capture_def)

text \<open>Capacity eviction.\<close>

lemma capacity_eviction:
  assumes fresh: "tasks w t = None"
    and dist: "distinct (map fst (sessions (manager w)))"
    and miss: "map_of (sessions (manager w)) (sessionKey config) = None"
    and noidle: "filter (\<lambda>(key, s). SESSION_TIMEOUT < now w - lastUsedAt s) (sessions (manager w)) = []"
    and full: "MAX_SESSIONS \<le> length (sessions (manager w))"
    and ss: "sessions (manager w) = pre @ (key, s) # post"
    and key: "key \<noteq> []"
    and pre: "\<forall>p\<in>set pre. lastUsedAt s < lastUsedAt (snd p)"
    and post: "\<forall>p\<in>set post. lastUsedAt s \<le> lastUsedAt (snd p)"
    and d: "200 \<le> d"
  shows "destroyed (trace (run [CallGetSession t config, Resume t Microtask, Tick d, Resume t TimerFired] w))
           = destroyed (trace w) @ [session s] \<and>
         sessions (manager (run [CallGetSession t config, Resume t Microtask, Tick d, Resume t TimerFired] w))
           = pre @ post \<and>
         (\<forall>u. u \<noteq> t \<longrightarrow>
            tasks (run [CallGetSession t config, Resume t Microtask, Tick d, Resume t TimerFired] w) u
              = tasks w u)"
proof -
  let ?w1 = "step (CallGetSession t config) w"
  have w1: "?w1 = setTask t (GetSessionTask config CleanupReturned) w"
    using fresh miss noidle by (simp add: getSession_def cleanup_def expiredKeys_def gsTask_def)
  let ?w2 = "step (Resume t Microtask) ?w1"
  have scan: "fst (oldestScan (sessions (manager w)) (None, None)) = Some key"
    unfolding ss using oldestScan_first_min [OF pre post] by simp
  have cap: "capture key w = Some (session s)"
    using map_of_middle [of pre key s post] dist ss by (simp add: capture_def)
  have w2: "?w2 = setTask t (GetSessionTask config (DestroyOldestWait (now w + 200) (Some (session s)) key)) w"
    unfolding w1 using full scan key cap
    by (simp add: enforceLimit_def destroyOldestSession_def gsTask_def setTask_def)
  let ?w3 = "step (Tick d) ?w2"
  let ?v = "deleteKey key (destroyCaptured t (Some (session s)) ?w3)"
  have v_sess: "sessions (manager ?v) = pre @ post"
    unfolding w2 using delete_middle [of pre key s post] dist ss
    by (simp add: deleteKey_def destroyCaptured_def)
  have v_destroyed: "destroyed (trace ?v) = destroyed (trace w) @ [session s]"
    unfolding w2 by (simp add: destroyCaptured_def)
  have v_tasks: "tasks ?v = (tasks w)(t \<mapsto> GetSessionTask config (DestroyOldestWait (now w + 200) (Some (session s)) key))"
    unfolding w2 by simp
  let ?w4 = "step (Resume t TimerFired) ?w3"
  have w4: "?w4 = setTask t (gsTask config (fst (rateLimit t config ?v))) (snd (rateLimit t config ?v))"
    unfolding w2 using d by simp
  have q: "quiet ?v (snd (rateLimit t config ?v))" by (rule quiet_rateLimit)
  have r: "run [CallGetSession t config, Resume t Microtask, Tick d, Resume t TimerFired] w = ?w4"
    by (simp add: run_def)
  have a: "destroyed (trace ?w4) = destroyed (trace w) @ [session s]"
    unfolding w4 using q v_destroyed by (simp add: quiet_def)
  have b: "sessions (manager ?w4) = pre @ post"
    unfolding w4 using q v_sess by (simp add: quiet_def)
  have c: "\<forall>u. u \<noteq> t \<longrightarrow> tasks ?w4 u = tasks w u"
    unfolding w4 using q v_tasks by (simp add: quiet_def)
  show ?thesis unfolding r using a b c by blast
qed

lemma capture_in:
  "key \<in> fst ` set (sessions (manager w)) \<Longrightarrow>
     capture key w = Some (session (the (map_of (sessions (manager w)) key)))"
  by (cases "map_of (sessions (manager w)) key") (auto simp: capture_def map_of_eq_None_iff)

lemma capture_deleteKey: "k \<noteq> key \<Longrightarrow> capture k (deleteKey key w) = capture k w"
  by (simp add: capture_def deleteKey_def AList.delete_conv)

lemma sessions_deleteKey [simp]:
  "sessions (manager (deleteKey key w)) = AList.delete key (sessions (manager w))"
  by (simp add: deleteKey_def)

lemma manager_destroyCaptured [simp]: "manager (destroyCaptured t cap w) = manager w"
  by (simp add: destroyCaptured_def split: option.splits)

lemma destroyed_destroyCaptured [simp]:
  "destroyed (trace (destroyCaptured t cap w)) =
     destroyed (trace w) @ (case cap of None \<Rightarrow> [] | Some h \<Rightarrow> [h])"
  by (simp add: destroyCaptured_def split: option.splits)

lemma delete_filter: "AList.delete key xs = filter (\<lambda>p. fst p \<noteq> key) xs"
  by (induction xs) (auto simp: AList.delete_eq)

text \<open>The idle sweep, from its first delay on.\<close>

lemma sweep_loop:
  assumes "tasks v t = Some (GetSessionTask config (CleanupWait (now v + 200) (capture key v) key rest))"
    and "distinct (key # rest)"
    and "set (key # rest) \<subseteq> fst ` set (sessions (manager v))"
  shows "destroyed (trace (run (timerTurns t (Suc (length rest))) v)) =
           destroyed (trace v) @ map (\<lambda>k. session (the (map_of (sessions (manager v)) k))) (key # rest) \<and>
         sessions (manager (run (timerTurns t (Suc (length rest))) v)) =
           filter (\<lambda>p. fst p \<notin> set (key # rest)) (sessions (manager v)) \<and>
         (\<forall>u. u \<noteq> t \<longrightarrow> tasks (run (timerTurns t (Suc (length rest))) v) u = tasks v u)"
  using assms
proof (induction rest arbitrary: v key)
  case Nil
  let ?v1 = "step (Tick 200) v"
  let ?h = "session (the (map_of (sessions (manager v)) key))"
  have cap: "capture key v = Some ?h" using Nil.prems(3) by (simp add: capture_in)
  let ?x = "deleteKey key (destroyCaptured t (Some ?h) ?v1)"
  have st: "step (Resume t TimerFired) ?v1 =
          setTask t (gsTask config (fst (enforceLimit t config ?x))) (snd (enforceLimit t config ?x))"
    using Nil.prems(1) cap by (simp add: cleanupLoop_def)
  have q: "quiet ?x (snd (enforceLimit t config ?x))" by (rule quiet_enforceLimit)
  have r: "run (timerTurns t (Suc (length ([] :: jsstring list)))) v = step (Resume t TimerFired) ?v1"
    by (simp add: timerTurns_def run_def)
  show ?case unfolding r st using q
    by (simp add: quiet_def delete_filter)
next
  case (Cons key2 rest)
  let ?v1 = "step (Tick 200) v"
  let ?h = "session (the (map_of (sessions (manager v)) key))"
  have cap: "capture key v = Some ?h" using Cons.prems(3) by (simp add: capture_in)
  let ?x = "deleteKey key (destroyCaptured t (Some ?h) ?v1)"
  let ?v2 = "setTask t (GetSessionTask config (CleanupWait (now ?x + 200) (capture key2 ?x) key2 rest)) ?x"
  have st: "step (Resume t TimerFired) ?v1 = ?v2"
    using Cons.prems(1) cap by (simp add: cleanupLoop_def gsTask_def)
  have r: "run (timerTurns t (Suc (length (key2 # rest)))) v = run (timerTurns t (Suc (length rest))) ?v2"
    using st by (simp add: timerTurns_Suc run_Cons)
  have ne: "key \<noteq> key2" "key \<notin> set rest" using Cons.prems(2) by auto
  have p1: "tasks ?v2 t = Some (GetSessionTask config (CleanupWait (now ?v2 + 200) (capture key2 ?v2) key2 rest))"
    by simp
  have p2: "distinct (key2 # rest)" using Cons.prems(2) by simp
  have sess2: "sessions (manager ?v2) = AList.delete key (sessions (manager v))" by simp
  have p3: "set (key2 # rest) \<subseteq> fst ` set (sessions (manager ?v2))"
  proof
    fix k assume k: "k \<in> set (key2 # rest)"
    then have "k \<noteq> key" using ne by auto
    moreover obtain p where "p \<in> set (sessions (manager v))" "fst p = k"
      using k Cons.prems(3) by auto
    ultimately show "k \<in> fst ` set (sessions (manager ?v2))"
      unfolding sess2 by (force simp: delete_filter)
  qed
  note IH = Cons.IH [OF p1 p2 p3]
  have mo: "\<And>k. k \<in> set (key2 # rest) \<Longrightarrow>
             map_of (AList.delete key (sessions (manager v))) k = map_of (sessions (manager v)) k"
    using ne by (auto simp: AList.delete_conv)
  have m: "map (\<lambda>k. session (the (map_of (sessions (manager ?v2)) k))) (key2 # rest) =
           map (\<lambda>k. session (the (map_of (sessions (manager v)) k))) (key2 # rest)"
    unfolding sess2 using mo by (intro map_cong) simp_all
  have d2: "destroyed (trace ?v2) = destroyed (trace v) @ [?h]" by simp
  have f: "filter (\<lambda>p. fst p \<notin> set (key2 # rest)) (sessions (manager ?v2)) =
           filter (\<lambda>p. fst p \<notin> set (key # key2 # rest)) (sessions (manager v))"
    unfolding sess2 by (auto simp: delete_filter intro: filter_cong)
  have t2: "\<forall>u. u \<noteq> t \<longrightarrow> tasks ?v2 u = tasks v u" by simp
  show ?case unfolding r using IH unfolding m d2 f using t2 by simp
qed

lemma handles_of_keys:
  assumes "distinct (map fst ss)" and "set xs \<subseteq> set ss"
  shows "map (\<lambda>k. session (the (map_of ss k))) (map fst xs) = map (\<lambda>(key, s). session s) xs"
proof -
  have "\<And>p. p \<in> set xs \<Longrightarrow> map_of ss (fst p) = Some (snd p)"
    using assms by (auto intro: map_of_is_SomeI)
  then show ?thesis by (auto simp: case_prod_unfold)
qed

lemma keep_not_selected:
  assumes "distinct (map fst ss)"
  shows "filter (\<lambda>p. fst p \<notin> set (map fst (filter P ss))) ss = filter (\<lambda>p. \<not> P p) ss"
proof (rule filter_cong [OF refl])
  fix p assume p: "p \<in> set ss"
  have "fst p \<in> fst ` {q \<in> set ss. P q} \<longleftrightarrow> P p"
  proof
    assume "fst p \<in> fst ` {q \<in> set ss. P q}"
    then obtain q where q: "q \<in> set ss" "P q" "fst q = fst p" by auto
    then have "q = p"
      using eq_key_imp_eq_value [OF assms, of "fst p" "snd q" "snd p"] p
      by (cases p; cases q) auto
    then show "P p" using q by simp
  next
    assume "P p" then show "fst p \<in> fst ` {q \<in> set ss. P q}" using p by auto
  qed
  then show "(fst p \<notin> set (map fst (filter P ss))) = (\<not> P p)" by simp
qed

text \<open>The idle sweep of a call that misses.\<close>

lemma idle_sweep:
  assumes fresh: "tasks w t = None"
    and dist: "distinct (map fst (sessions (manager w)))"
    and miss: "map_of (sessions (manager w)) (sessionKey config) = None"
  shows "destroyed (trace (run (CallGetSession t config #
            timerTurns t (length (filter (\<lambda>(key, s). SESSION_TIMEOUT < now w - lastUsedAt s)
               (sessions (manager w))))) w)) =
           destroyed (trace w) @
             map (\<lambda>(key, s). session s)
               (filter (\<lambda>(key, s). SESSION_TIMEOUT < now w - lastUsedAt s) (sessions (manager w))) \<and>
         sessions (manager (run (CallGetSession t config #
            timerTurns t (length (filter (\<lambda>(key, s). SESSION_TIMEOUT < now w - lastUsedAt s)
               (sessions (manager w))))) w)) =
           filter (\<lambda>(key, s). \<not> SESSION_TIMEOUT < now w - lastUsedAt s) (sessions (manager w)) \<and>
         (\<forall>u. u \<noteq> t \<longrightarrow>
            tasks (run (CallGetSession t config #
              timerTurns t (length (filter (\<lambda>(key, s). SESSION_TIMEOUT < now w - lastUsedAt s)
                 (sessions (manager w))))) w) u = tasks w u)"
proof -
  let ?P = "\<lambda>(key, s). SESSION_TIMEOUT < now w - lastUsedAt s"
  let ?ss = "sessions (manager w)"
  let ?exp = "filter ?P ?ss"
  have ek: "expiredKeys (now w) ?ss = map fst ?exp" by (simp add: expiredKeys_def)
  show ?thesis
  proof (cases ?exp)
    case Nil
    have st: "step (CallGetSession t config) w = setTask t (GetSessionTask config CleanupReturned) w"
      using fresh miss ek Nil by (simp add: getSession_def cleanup_def gsTask_def)
    have "filter (\<lambda>p. \<not> ?P p) ?ss = ?ss" using Nil by (simp add: filter_empty_conv)
    then have keep: "filter (\<lambda>(key, s). \<not> SESSION_TIMEOUT < now w - lastUsedAt s) ?ss = ?ss"
      by (simp add: case_prod_unfold)
    show ?thesis unfolding Nil using st keep by (simp add: timerTurns_def run_Cons)
  next
    case (Cons p exp')
    obtain key s0 where p: "p = (key, s0)" by (cases p)
    let ?rest = "map fst exp'"
    have keys: "expiredKeys (now w) ?ss = key # ?rest" using ek Cons p by simp
    let ?v = "setTask t (GetSessionTask config (CleanupWait (now w + 200) (capture key w) key ?rest)) w"
    have st: "step (CallGetSession t config) w = ?v"
      using fresh miss keys by (simp add: getSession_def cleanup_def cleanupLoop_def gsTask_def)
    have p1: "tasks ?v t = Some (GetSessionTask config (CleanupWait (now ?v + 200) (capture key ?v) key ?rest))"
      by simp
    have "distinct (map fst ?exp)" using dist by (rule distinct_map_filter)
    then have p2: "distinct (key # ?rest)" using Cons p by simp
    have "set (map fst ?exp) \<subseteq> fst ` set ?ss" by auto
    then have p3: "set (key # ?rest) \<subseteq> fst ` set (sessions (manager ?v))" using Cons p by simp
    note L = sweep_loop [OF p1 p2 p3]
    have len: "length ?exp = Suc (length ?rest)" using Cons by simp
    have r: "run (CallGetSession t config # timerTurns t (length ?exp)) w =
             run (timerTurns t (Suc (length ?rest))) ?v"
      unfolding len using st by (simp add: run_Cons)
    have kr: "key # ?rest = map fst ?exp" using Cons p by simp
    have h: "map (\<lambda>k. session (the (map_of ?ss k))) (key # ?rest) = map (\<lambda>(key, s). session s) ?exp"
      unfolding kr by (rule handles_of_keys [OF dist]) auto
    have f: "filter (\<lambda>p. fst p \<notin> set (key # ?rest)) ?ss =
             filter (\<lambda>(key, s). \<not> SESSION_TIMEOUT < now w - lastUsedAt s) ?ss"
      unfolding kr using keep_not_selected [OF dist, of ?P] by (simp add: case_prod_unfold)
    show ?thesis unfolding r using L h f by simp
  qed
qed

text \<open>\<open>destroyAll\<close>, from its first delay on, and from its call.\<close>

lemma destroyAll_loop:
  assumes "tasks v t = Some (DestroyTask (DestroyAllWait (now v + 200) (capture key v) rest))"
    and "set (key # rest) \<subseteq> fst ` set (sessions (manager v))"
  shows "destroyed (trace (run (timerTurns t (Suc (length rest))) v)) =
           destroyed (trace v) @ map (\<lambda>k. session (the (map_of (sessions (manager v)) k))) (key # rest) \<and>
         sessions (manager (run (timerTurns t (Suc (length rest))) v)) = [] \<and>
         tasks (run (timerTurns t (Suc (length rest))) v) t = Some (Done (Fulfilled UndefinedValue)) \<and>
         (\<forall>u. u \<noteq> t \<longrightarrow> tasks (run (timerTurns t (Suc (length rest))) v) u = tasks v u)"
  using assms
proof (induction rest arbitrary: v key)
  case Nil
  let ?h = "session (the (map_of (sessions (manager v)) key))"
  have cap: "capture key v = Some ?h" using Nil.prems(2) by (simp add: capture_in)
  have r: "run (timerTurns t (Suc (length ([] :: jsstring list)))) v =
           step (Resume t TimerFired) (step (Tick 200) v)"
    by (simp add: timerTurns_def run_def)
  show ?case unfolding r using Nil.prems(1) cap by (simp add: destroyAllLoop_def)
next
  case (Cons key2 rest)
  let ?v1 = "step (Tick 200) v"
  let ?h = "session (the (map_of (sessions (manager v)) key))"
  have cap: "capture key v = Some ?h" using Cons.prems(2) by (simp add: capture_in)
  let ?x = "destroyCaptured t (Some ?h) ?v1"
  let ?v2 = "setTask t (DestroyTask (DestroyAllWait (now ?x + 200) (capture key2 ?x) rest)) ?x"
  have st: "step (Resume t TimerFired) ?v1 = ?v2"
    using Cons.prems(1) cap by (simp add: destroyAllLoop_def)
  have r: "run (timerTurns t (Suc (length (key2 # rest)))) v = run (timerTurns t (Suc (length rest))) ?v2"
    using st by (simp add: timerTurns_Suc run_Cons)
  have p1: "tasks ?v2 t = Some (DestroyTask (DestroyAllWait (now ?v2 + 200) (capture key2 ?v2) rest))"
    by simp
  have sess2: "sessions (manager ?v2) = sessions (manager v)" by simp
  have p2: "set (key2 # rest) \<subseteq> fst ` set (sessions (manager ?v2))"
    unfolding sess2 using Cons.prems(2) by simp
  note IH = Cons.IH [OF p1 p2]
  have d2: "destroyed (trace ?v2) = destroyed (trace v) @ [?h]" by simp
  have t2: "\<forall>u. u \<noteq> t \<longrightarrow> tasks ?v2 u = tasks v u" by simp
  show ?case unfolding r using IH unfolding sess2 d2 using t2 by simp
qed

lemma destroyAll_run:
  assumes fresh: "tasks w t = None"
    and dist: "distinct (map fst (sessions (manager w)))"
  shows "destroyed (trace (run (CallDestroyAll t # timerTurns t (length (sessions (manager w)))) w)) =
           destroyed (trace w) @ map (\<lambda>(key, s). session s) (sessions (manager w)) \<and>
         sessions (manager (run (CallDestroyAll t # timerTurns t (length (sessions (manager w)))) w)) = [] \<and>
         tasks (run (CallDestroyAll t # timerTurns t (length (sessions (manager w)))) w) t =
           Some (Done (Fulfilled UndefinedValue)) \<and>
         (\<forall>u. u \<noteq> t \<longrightarrow>
            tasks (run (CallDestroyAll t # timerTurns t (length (sessions (manager w)))) w) u = tasks w u)"
proof (cases "sessions (manager w)")
  case Nil
  then show ?thesis using fresh
    by (simp add: run_Cons timerTurns_def destroyAll_def destroyAllLoop_def)
next
  case (Cons p ss')
  let ?ss = "sessions (manager w)"
  let ?key = "fst p" and ?rest = "map fst ss'"
  let ?v = "setTask t (DestroyTask (DestroyAllWait (now w + 200) (capture ?key w) ?rest)) w"
  have st: "step (CallDestroyAll t) w = ?v"
    using fresh Cons by (simp add: destroyAll_def destroyAllLoop_def)
  have p1: "tasks ?v t = Some (DestroyTask (DestroyAllWait (now ?v + 200) (capture ?key ?v) ?rest))"
    by simp
  have p2: "set (?key # ?rest) \<subseteq> fst ` set (sessions (manager ?v))" using Cons by auto
  note L = destroyAll_loop [OF p1 p2]
  have len: "length ?ss = Suc (length ?rest)" using Cons by simp
  have r: "run (CallDestroyAll t # timerTurns t (length ?ss)) w = run (timerTurns t (Suc (length ?rest))) ?v"
    unfolding len using st by (simp add: run_Cons)
  have kr: "?key # ?rest = map fst ?ss" using Cons by simp
  have h: "map (\<lambda>k. session (the (map_of ?ss k))) (?key # ?rest) = map (\<lambda>(key, s). session s) ?ss"
    unfolding kr by (rule handles_of_keys [OF dist]) simp
  show ?thesis unfolding r using L h by simp
qed

text \<open>The state in which the pool is full, and the state with the fourth chunk in flight.\<close>

lemma poolFilled_state:
  "sessions (manager (run poolFilledDuringSummarize (initialWorld startTime))) =
     [(sessionKey (summarizerConfig shortArticle),
       \<lparr>session = 11, stype = summarizer, createdAt = startTime + 50,
          lastUsedAt = startTime + 50, useCount = 1\<rparr>),
      (sessionKey configB,
       \<lparr>session = 12, stype = languageModel, createdAt = startTime + 1100,
          lastUsedAt = startTime + 1100, useCount = 1\<rparr>),
      (sessionKey configC,
       \<lparr>session = 13, stype = languageModel, createdAt = startTime + 2150,
          lastUsedAt = startTime + 2150, useCount = 1\<rparr>)]"
  "tasks (run poolFilledDuringSummarize (initialWorld startTime)) 1 =
     Some (SimplifyTask shortArticle None (SingleWait 11))"
  "now (run poolFilledDuringSummarize (initialWorld startTime)) = startTime + 3150"
  "tasks (run poolFilledDuringSummarize (initialWorld startTime)) 4 = None"
  "destroyed (trace (run poolFilledDuringSummarize (initialWorld startTime))) = []"
  by (simp_all add: poolFilledDuringSummarize_def shortArticle_def configB_def configC_def
      startTime_def destroyed_def model_defs key_defs)

lemma fourthChunk_state:
  "sessions (manager (run fourthChunkInFlight (initialWorld startTime))) =
     [(sessionKey (summarizerConfig fiveChunkArticle),
       \<lparr>session = 11, stype = summarizer, createdAt = startTime + 50,
          lastUsedAt = startTime + 50, useCount = 1\<rparr>)]"
  "tasks (run fourthChunkInFlight (initialWorld startTime)) 1 =
     Some (SimplifyTask fiveChunkArticle None
            (ChunkWait 11 fiveChunks 3
               [js ''First summary.'', js ''Second summary.'', js ''Third summary.'']))"
  "now (run fourthChunkInFlight (initialWorld startTime)) = startTime + 301550"
  "tasks (run fourthChunkInFlight (initialWorld startTime)) 2 = None"
  "destroyed (trace (run fourthChunkInFlight (initialWorld startTime))) = []"
  by (simp_all add: fourthChunkInFlight_def fiveChunkArticle_def fiveChunks_def startTime_def
      destroyed_def model_defs split_five_chunks)

text \<open>
  Claim C3 says that a pooled session is never destroyed, by the idle sweep, by capacity
  eviction or by \<open>destroyAll\<close>, while a call that acquired it has a host call in flight
  or chunks pending. Capacity eviction: \<open>simplifyArticle\<close> has acquired session 11 and
  awaits its \<open>summarize\<close> call when a call for a fourth config finds the pool full;
  session 11 has the smallest \<open>lastUsedAt\<close> and is destroyed, while \<open>simplifyArticle\<close>
  still awaits it. \<open>destroyAll\<close>: called in the same situation, its first host call
  destroys session 11. Idle sweep: the fourth of five chunks is in flight on session 11,
  acquired more than five minutes earlier, when a call for another config arrives; the
  sweep destroys session 11 with two chunks still to come.
\<close>

theorem session_destroyed_during_summarize:
  "tasks (run evictionDuringSummarize (initialWorld startTime)) 1 =
     Some (SimplifyTask shortArticle None (SingleWait 11)) \<and>
   callsBy 1 (trace (run evictionDuringSummarize (initialWorld startTime))) =
     [AvailabilityCall summarizer, CreateCall summarizer, SummarizeCall 11 (content shortArticle)] \<and>
   callsBy 4 (trace (run evictionDuringSummarize (initialWorld startTime))) =
     [DestroyCall 11, AvailabilityCall languageModel] \<and>
   tasks (run destroyAllDuringSummarize (initialWorld startTime)) 1 =
     Some (SimplifyTask shortArticle None (SingleWait 11)) \<and>
   callsBy 5 (trace (run destroyAllDuringSummarize (initialWorld startTime))) = [DestroyCall 11] \<and>
   tasks (run sweepDuringChunks (initialWorld startTime)) 1 =
     Some (SimplifyTask fiveChunkArticle None
            (ChunkWait 11 fiveChunks 3
               [js ''First summary.'', js ''Second summary.'', js ''Third summary.''])) \<and>
   callsBy 2 (trace (run sweepDuringChunks (initialWorld startTime))) =
     [DestroyCall 11, AvailabilityCall languageModel]"
proof -
  have cap: "tasks (run evictionDuringSummarize (initialWorld startTime)) 1 =
     Some (SimplifyTask shortArticle None (SingleWait 11)) \<and>
   callsBy 1 (trace (run evictionDuringSummarize (initialWorld startTime))) =
     [AvailabilityCall summarizer, CreateCall summarizer, SummarizeCall 11 (content shortArticle)] \<and>
   callsBy 4 (trace (run evictionDuringSummarize (initialWorld startTime))) =
     [DestroyCall 11, AvailabilityCall languageModel]"
    by (simp add: evictionDuringSummarize_def poolFilledDuringSummarize_def shortArticle_def
      configB_def configC_def configD_def startTime_def callsBy_def model_defs key_defs)
  have da: "tasks (run destroyAllDuringSummarize (initialWorld startTime)) 1 =
     Some (SimplifyTask shortArticle None (SingleWait 11)) \<and>
   callsBy 5 (trace (run destroyAllDuringSummarize (initialWorld startTime))) = [DestroyCall 11]"
    by (simp add: destroyAllDuringSummarize_def poolFilledDuringSummarize_def shortArticle_def
      configB_def configC_def startTime_def callsBy_def model_defs key_defs)
  have sw: "tasks (run sweepDuringChunks (initialWorld startTime)) 1 =
     Some (SimplifyTask fiveChunkArticle None
            (ChunkWait 11 fiveChunks 3
               [js ''First summary.'', js ''Second summary.'', js ''Third summary.''])) \<and>
   callsBy 2 (trace (run sweepDuringChunks (initialWorld startTime))) =
     [DestroyCall 11, AvailabilityCall languageModel]"
    by (simp add: sweepDuringChunks_def fourthChunkInFlight_def fiveChunkArticle_def fiveChunks_def
      configB_def startTime_def callsBy_def model_defs key_defs split_five_chunks)
  from cap da sw show ?thesis by blast
qed

text \<open>
  Claim C3, amended. The pool keeps no record of the calls that use a session, and what
  is destroyed depends on the pool and the clock alone. For a pool with distinct keys
  and a fresh call \<open>t\<close>:
  \<^item> a \<open>getSession\<close> call that misses the pool destroys, one every 200 ms and in the order
    of the pool, exactly the sessions whose \<open>lastUsedAt\<close> lies more than
    \<open>SESSION_TIMEOUT\<close> before the call, and the others stay in the pool;
  \<^item> when no session is idle and the pool holds \<open>MAX_SESSIONS\<close> or more, the call
    destroys after its delay the first session in the order of the pool among those with
    the smallest \<open>lastUsedAt\<close>, and only that one;
  \<^item> \<open>destroyAll\<close> destroys every session of the pool and leaves the pool empty;
  \<^item> in all three cases every \<open>simplifyArticle\<close> call that held a session before still
    holds it afterwards, destroyed or not: no call is told, and none is waited for;
  \<^item> a \<open>simplifyArticle\<close> call that has its session never changes the pool and never
    destroys a session, whatever answer it is resumed with.
\<close>

theorem destruction_ignores_use:
  assumes "tasks w t = None" and "distinct (map fst (sessions (manager w)))"
  shows
    "(map_of (sessions (manager w)) (sessionKey config) = None \<longrightarrow>
        (let idle = filter (\<lambda>(key, s). SESSION_TIMEOUT < now w - lastUsedAt s) (sessions (manager w));
             w' = run (CallGetSession t config # timerTurns t (length idle)) w
         in destroyed (trace w') = destroyed (trace w) @ map (\<lambda>(key, s). session s) idle \<and>
            sessions (manager w') =
              filter (\<lambda>(key, s). \<not> SESSION_TIMEOUT < now w - lastUsedAt s) (sessions (manager w)) \<and>
            (\<forall>u h. holdsSession w u h \<longrightarrow> holdsSession w' u h))) \<and>
     (map_of (sessions (manager w)) (sessionKey config) = None \<and>
      filter (\<lambda>(key, s). SESSION_TIMEOUT < now w - lastUsedAt s) (sessions (manager w)) = [] \<and>
      MAX_SESSIONS \<le> length (sessions (manager w)) \<and>
      sessions (manager w) = pre @ (key, s) # post \<and> key \<noteq> [] \<and>
      (\<forall>p\<in>set pre. lastUsedAt s < lastUsedAt (snd p)) \<and>
      (\<forall>p\<in>set post. lastUsedAt s \<le> lastUsedAt (snd p)) \<and> 200 \<le> d \<longrightarrow>
        (let w' = run [CallGetSession t config, Resume t Microtask, Tick d, Resume t TimerFired] w
         in destroyed (trace w') = destroyed (trace w) @ [session s] \<and>
            sessions (manager w') = pre @ post \<and>
            (\<forall>u h. holdsSession w u h \<longrightarrow> holdsSession w' u h))) \<and>
     (let w' = run (CallDestroyAll t # timerTurns t (length (sessions (manager w)))) w
      in destroyed (trace w') = destroyed (trace w) @ map (\<lambda>(key, s). session s) (sessions (manager w)) \<and>
         sessions (manager w') = [] \<and>
         (\<forall>u h. holdsSession w u h \<longrightarrow> holdsSession w' u h)) \<and>
     (tasks w u = Some (SimplifyTask args sig pc) \<and> (\<forall>g. pc \<noteq> Acquiring g) \<longrightarrow>
        manager (step (Resume u r) w) = manager w \<and>
        destroyed (trace (step (Resume u r) w)) = destroyed (trace w))"
proof -
  have 1: "let idle = filter (\<lambda>(key, s). SESSION_TIMEOUT < now w - lastUsedAt s) (sessions (manager w));
             w' = run (CallGetSession t config # timerTurns t (length idle)) w
         in destroyed (trace w') = destroyed (trace w) @ map (\<lambda>(key, s). session s) idle \<and>
            sessions (manager w') =
              filter (\<lambda>(key, s). \<not> SESSION_TIMEOUT < now w - lastUsedAt s) (sessions (manager w)) \<and>
            (\<forall>u h. holdsSession w u h \<longrightarrow> holdsSession w' u h)"
    if miss: "map_of (sessions (manager w)) (sessionKey config) = None"
    using idle_sweep [OF assms miss] holds_kept [OF assms(1)] unfolding Let_def by blast
  have 2: "let w' = run [CallGetSession t config, Resume t Microtask, Tick d, Resume t TimerFired] w
         in destroyed (trace w') = destroyed (trace w) @ [session s] \<and>
            sessions (manager w') = pre @ post \<and>
            (\<forall>u h. holdsSession w u h \<longrightarrow> holdsSession w' u h)"
    if "map_of (sessions (manager w)) (sessionKey config) = None"
      "filter (\<lambda>(key, s). SESSION_TIMEOUT < now w - lastUsedAt s) (sessions (manager w)) = []"
      "MAX_SESSIONS \<le> length (sessions (manager w))"
      "sessions (manager w) = pre @ (key, s) # post" "key \<noteq> []"
      "\<forall>p\<in>set pre. lastUsedAt s < lastUsedAt (snd p)"
      "\<forall>p\<in>set post. lastUsedAt s \<le> lastUsedAt (snd p)" "200 \<le> d"
    using capacity_eviction [OF assms that] holds_kept [OF assms(1)] unfolding Let_def by blast
  have 3: "let w' = run (CallDestroyAll t # timerTurns t (length (sessions (manager w)))) w
      in destroyed (trace w') = destroyed (trace w) @ map (\<lambda>(key, s). session s) (sessions (manager w)) \<and>
         sessions (manager w') = [] \<and>
         (\<forall>u h. holdsSession w u h \<longrightarrow> holdsSession w' u h)"
    using destroyAll_run [OF assms] holds_kept [OF assms(1)] unfolding Let_def by blast
  have 4: "manager (step (Resume u r) w) = manager w \<and>
        destroyed (trace (step (Resume u r) w)) = destroyed (trace w)"
    if "tasks w u = Some (SimplifyTask args sig pc)" "\<forall>g. pc \<noteq> Acquiring g"
    using that
    by (cases pc; cases r)
       (auto simp: afterAcquire_def chunkLoop_def afterLoop_def caught_def Let_def split: option.splits)
  show ?thesis using 1 2 3 4 by blast
qed

text \<open>
  With the pool full and session 11 held by call 1 (awaiting \<open>summarize\<close>), a call for a
  fourth config destroys session 11 and \<open>destroyAll\<close> destroys 11, 12 and 13; with the
  fourth chunk in flight on session 11, idle for more than five minutes, a call for
  another config destroys it. Call 1 holds session 11 before and after each of them, and
  its own next step leaves the pool as it is.
\<close>

theorem destruction_ignores_use_witness:
  "holdsSession (run poolFilledDuringSummarize (initialWorld startTime)) 1 11 \<and>
   destroyed (trace (run [CallGetSession 4 configD, Resume 4 Microtask, Tick 200, Resume 4 TimerFired]
                       (run poolFilledDuringSummarize (initialWorld startTime)))) = [11] \<and>
   holdsSession (run [CallGetSession 4 configD, Resume 4 Microtask, Tick 200, Resume 4 TimerFired]
                   (run poolFilledDuringSummarize (initialWorld startTime))) 1 11 \<and>
   destroyed (trace (run (CallDestroyAll 4 # timerTurns 4 3)
                       (run poolFilledDuringSummarize (initialWorld startTime)))) = [11, 12, 13] \<and>
   sessions (manager (run (CallDestroyAll 4 # timerTurns 4 3)
                       (run poolFilledDuringSummarize (initialWorld startTime)))) = [] \<and>
   holdsSession (run (CallDestroyAll 4 # timerTurns 4 3)
                   (run poolFilledDuringSummarize (initialWorld startTime))) 1 11 \<and>
   holdsSession (run fourthChunkInFlight (initialWorld startTime)) 1 11 \<and>
   destroyed (trace (run (CallGetSession 2 configB # timerTurns 2 1)
                       (run fourthChunkInFlight (initialWorld startTime)))) = [11] \<and>
   sessions (manager (run (CallGetSession 2 configB # timerTurns 2 1)
                       (run fourthChunkInFlight (initialWorld startTime)))) = [] \<and>
   holdsSession (run (CallGetSession 2 configB # timerTurns 2 1)
                   (run fourthChunkInFlight (initialWorld startTime))) 1 11 \<and>
   manager (step (Resume 1 (Summarized (js ''Fourth summary.'')))
              (run fourthChunkInFlight (initialWorld startTime))) =
     manager (run fourthChunkInFlight (initialWorld startTime))"
proof -
  let ?w1 = "run poolFilledDuringSummarize (initialWorld startTime)"
  let ?w2 = "run fourthChunkInFlight (initialWorld startTime)"
  let ?kA = "sessionKey (summarizerConfig shortArticle)"
  let ?sA = "\<lparr>session = 11, stype = summarizer, createdAt = startTime + 50,
               lastUsedAt = startTime + 50, useCount = 1\<rparr>"
  let ?post = "[(sessionKey configB,
                 \<lparr>session = 12, stype = languageModel, createdAt = startTime + 1100,
                    lastUsedAt = startTime + 1100, useCount = 1\<rparr>),
                (sessionKey configC,
                 \<lparr>session = 13, stype = languageModel, createdAt = startTime + 2150,
                    lastUsedAt = startTime + 2150, useCount = 1\<rparr>)]"
  let ?k5 = "sessionKey (summarizerConfig fiveChunkArticle)"
  have fresh1: "tasks ?w1 4 = None" by (rule poolFilled_state(4))
  have dist1: "distinct (map fst (sessions (manager ?w1)))"
    by (simp add: poolFilled_state(1) shortArticle_def configB_def configC_def
        summarizerConfig_def key_defs)
  have miss1: "map_of (sessions (manager ?w1)) (sessionKey configD) = None"
    by (simp add: poolFilled_state(1) shortArticle_def configB_def configC_def configD_def
        summarizerConfig_def key_defs)
  have noidle1: "filter (\<lambda>(key, s). SESSION_TIMEOUT < now ?w1 - lastUsedAt s) (sessions (manager ?w1)) = []"
    by (simp add: poolFilled_state(1,3) SESSION_TIMEOUT_def)
  have full1: "MAX_SESSIONS \<le> length (sessions (manager ?w1))"
    by (simp add: poolFilled_state(1) MAX_SESSIONS_def)
  have len1: "length (sessions (manager ?w1)) = 3"
    by (simp add: poolFilled_state(1))
  have shape1: "sessions (manager ?w1) = [] @ (?kA, ?sA) # ?post"
    by (simp add: poolFilled_state(1))
  have key1: "?kA \<noteq> []" by (simp add: key_defs summarizerConfig_def)
  have pre1: "\<forall>p\<in>set []. lastUsedAt ?sA < lastUsedAt (snd p)" by simp
  have post1: "\<forall>p\<in>set ?post. lastUsedAt ?sA \<le> lastUsedAt (snd p)" by simp
  have held1: "holdsSession ?w1 1 11" using poolFilled_state(2) by (simp add: holdsSession_def)
  note T1 = destruction_ignores_use [OF fresh1 dist1, where config = configD and pre = "[]"
      and key = ?kA and s = ?sA and post = ?post and d = 200]
  have cap: "destroyed (trace (run [CallGetSession 4 configD, Resume 4 Microtask, Tick 200, Resume 4 TimerFired] ?w1))
               = destroyed (trace ?w1) @ [session ?sA] \<and>
             holdsSession (run [CallGetSession 4 configD, Resume 4 Microtask, Tick 200, Resume 4 TimerFired] ?w1) 1 11"
    using T1 miss1 noidle1 full1 shape1 key1 pre1 post1 held1 unfolding Let_def by blast
  have da: "destroyed (trace (run (CallDestroyAll 4 # timerTurns 4 3) ?w1))
               = destroyed (trace ?w1) @ map (\<lambda>(key, s). session s) (sessions (manager ?w1)) \<and>
            sessions (manager (run (CallDestroyAll 4 # timerTurns 4 3) ?w1)) = [] \<and>
            holdsSession (run (CallDestroyAll 4 # timerTurns 4 3) ?w1) 1 11"
    using T1 held1 unfolding Let_def len1 by blast
  have fresh2: "tasks ?w2 2 = None" by (rule fourthChunk_state(4))
  have dist2: "distinct (map fst (sessions (manager ?w2)))"
    by (simp add: fourthChunk_state(1))
  have miss2: "map_of (sessions (manager ?w2)) (sessionKey configB) = None"
    by (simp add: fourthChunk_state(1) fiveChunkArticle_def configB_def
        summarizerConfig_def key_defs)
  have idle2: "filter (\<lambda>(key, s). SESSION_TIMEOUT < now ?w2 - lastUsedAt s) (sessions (manager ?w2)) =
                 [(?k5, ?sA)]"
    by (simp add: fourthChunk_state(1,3) SESSION_TIMEOUT_def)
  have keep2: "filter (\<lambda>(key, s). \<not> SESSION_TIMEOUT < now ?w2 - lastUsedAt s) (sessions (manager ?w2)) = []"
    by (simp add: fourthChunk_state(1,3) SESSION_TIMEOUT_def)
  have one: "length [(?k5, ?sA)] = 1" by simp
  have held2: "holdsSession ?w2 1 11" using fourthChunk_state(2) by (simp add: holdsSession_def)
  have at2: "tasks ?w2 1 = Some (SimplifyTask fiveChunkArticle None
            (ChunkWait 11 fiveChunks 3
               [js ''First summary.'', js ''Second summary.'', js ''Third summary.''])) \<and>
          (\<forall>g. ChunkWait 11 fiveChunks 3
               [js ''First summary.'', js ''Second summary.'', js ''Third summary.''] \<noteq> Acquiring g)"
    using fourthChunk_state(2) by simp
  note T2 = destruction_ignores_use [OF fresh2 dist2, where config = configB and u = 1
      and args = fiveChunkArticle and sig = None
      and pc = "ChunkWait 11 fiveChunks 3 [js ''First summary.'', js ''Second summary.'', js ''Third summary.'']"
      and r = "Summarized (js ''Fourth summary.'')"]
  have sw: "destroyed (trace (run (CallGetSession 2 configB # timerTurns 2 1) ?w2))
               = destroyed (trace ?w2) @ map (\<lambda>(key, s). session s) [(?k5, ?sA)] \<and>
            sessions (manager (run (CallGetSession 2 configB # timerTurns 2 1) ?w2)) = [] \<and>
            holdsSession (run (CallGetSession 2 configB # timerTurns 2 1) ?w2) 1 11"
    using T2 miss2 held2 unfolding Let_def idle2 keep2 one by blast
  have cp: "manager (step (Resume 1 (Summarized (js ''Fourth summary.''))) ?w2) = manager ?w2"
    using T2 at2 by blast
  have e1: "destroyed (trace ?w1) @ [session ?sA] = [11]"
    by (simp add: poolFilled_state(5))
  have e2: "destroyed (trace ?w1) @ map (\<lambda>(key, s). session s) (sessions (manager ?w1)) = [11, 12, 13]"
    by (simp add: poolFilled_state(1,5))
  have e3: "destroyed (trace ?w2) @ map (\<lambda>(key, s). session s) [(?k5, ?sA)] = [11]"
    by (simp add: fourthChunk_state(5))
  show ?thesis
    using held1 cap da held2 sw cp unfolding e1 e2 e3 by blast
qed

end
